theory Spec2Isabelle
  imports Complex_Main "HOL-Library.AList" "HOL-Library.Multiset"
begin

section \<open>Graph layout preparation of the knowledge-graph panel\<close>

text \<open>
  The development embeds the body of the \<open>useMemo\<close> callback of
  \<open>KnowledgeGraph\<close> (\<open>frontend/app/components/KnowledgeGraph.tsx\<close>, lines 43 to 97):
  node and edge normalisation, connected-component labelling by an explicit-stack
  depth-first search, and the injection of synthetic connector edges.

  Conventions of the embedding.
  \<^item> A string field read off a JSON object is a \<open>string option\<close>: \<open>None\<close> is the
    JavaScript \<open>undefined\<close> of an absent field. The TypeScript interface declares
    \<open>id\<close>, \<open>source\<close> and \<open>target\<close> as strings, but the declaration is erased at run
    time, and the code itself reads \<open>label\<close> (declared the same way) with \<open>??\<close>.
  \<^item> The entries of the node list and of the edge list are objects, as the interface
    declares. A \<open>null\<close> entry, on which the property reads of lines 45 and 53 would
    throw, is not a value of the payload type.
  \<^item> \<open>null\<close> is not told apart from \<open>undefined\<close>: \<open>??\<close> and \<open>||\<close> treat both alike.
  \<^item> A JavaScript number is a \<open>real\<close>; the only arithmetic of the code is one
    \<open>Math.max\<close> and one division by 5. \<open>NaN\<close> and the infinities, which JSON cannot
    carry, are left out.
  \<^item> The non-null assertions \<open>adj.get(..)!\<close> and \<open>nodesIn.find(..)!\<close> are erased by the
    compiler; using \<open>undefined\<close> there throws a \<open>TypeError\<close>, which is the \<open>Inl\<close>
    branch of the model.
\<close>

subsection \<open>Data model\<close>

type_synonym jsid = "string option"

text \<open>An element of \<open>data.graph.nodes\<close>.\<close>

record RawNode =
  r_id :: jsid
  r_label :: "string option"
  r_size :: "real option"
  r_importance :: "real option"
  r_frequency :: "real option"
  r_degree :: "real option"

text \<open>\<open>D3Node\<close>: the object literal built at lines 44 to 50, and the \<open>component\<close> field
  that the labelling assigns later.\<close>

record D3Node =
  n_id :: jsid
  n_label :: "string option"
  n_importance :: real
  n_frequency :: real
  n_degree :: real
  n_component :: "nat option"

record D3Edge =
  source :: jsid
  target :: jsid
  weight :: "real option"
  co_occurrence_count :: "real option"

text \<open>\<open>data.graph\<close>; an absent list (or an absent \<open>data\<close> or \<open>graph\<close>) is \<open>None\<close>.\<close>

record payload =
  graph_nodes :: "RawNode list option"
  graph_edges :: "D3Edge list option"

text \<open>The value returned by the callback, \<open>{ nodes: nodesIn, edges: [...] }\<close>.\<close>

record layout_graph =
  nodes :: "D3Node list"
  edges :: "D3Edge list"

datatype error = TypeError

subsection \<open>JavaScript operators\<close>

text \<open>\<open>a ?? b\<close>\<close>

definition nullish :: "'a option \<Rightarrow> 'a \<Rightarrow> 'a" where
  "nullish a b = (case a of None \<Rightarrow> b | Some v \<Rightarrow> v)"

text \<open>\<open>a || b\<close> on an optional number: \<open>undefined\<close> and \<open>0\<close> are falsy.\<close>

definition num_or :: "real option \<Rightarrow> real \<Rightarrow> real" where
  "num_or a b = (case a of None \<Rightarrow> b | Some v \<Rightarrow> if v = 0 then b else v)"

text \<open>\<open>xs || []\<close>\<close>

definition list_or_empty :: "'a list option \<Rightarrow> 'a list" where
  "list_or_empty xs = (case xs of None \<Rightarrow> [] | Some l \<Rightarrow> l)"

text \<open>Truthiness of an optional string: \<open>undefined\<close> and the empty string are falsy.\<close>

definition truthy :: "jsid \<Rightarrow> bool" where
  "truthy a = (case a of None \<Rightarrow> False | Some s \<Rightarrow> s \<noteq> [])"

subsection \<open>Normalisation (lines 44 to 53)\<close>

definition normalize_node :: "RawNode \<Rightarrow> D3Node" where
  "normalize_node n =
     \<lparr> n_id = r_id n,
       n_label = (case r_label n of None \<Rightarrow> r_id n | Some l \<Rightarrow> Some l),
       n_importance = nullish (r_importance n) (max (num_or (r_size n) 1) 1 / 5),
       n_frequency = nullish (r_frequency n) 0,
       n_degree = nullish (r_degree n) 0,
       n_component = None \<rparr>"

definition nodesIn :: "payload \<Rightarrow> D3Node list" where
  "nodesIn p = map normalize_node (list_or_empty (graph_nodes p))"

definition nodeIdSet :: "D3Node list \<Rightarrow> jsid set" where
  "nodeIdSet ns = set (map n_id ns)"

definition retained :: "D3Node list \<Rightarrow> D3Edge \<Rightarrow> bool" where
  "retained ns e \<longleftrightarrow> source e \<in> nodeIdSet ns \<and> target e \<in> nodeIdSet ns"

definition edgesIn :: "payload \<Rightarrow> D3Edge list" where
  "edgesIn p = filter (retained (nodesIn p)) (list_or_empty (graph_edges p))"

subsection \<open>Adjacency map (lines 56 to 61)\<close>

text \<open>\<open>Map<string, string[]>\<close> as an association list; \<open>adj.set\<close> is \<open>AList.update\<close> and
  \<open>adj.get\<close> is \<open>map_of\<close>.\<close>

type_synonym adjmap = "(jsid \<times> jsid list) list"

definition adj_init :: "D3Node list \<Rightarrow> adjmap" where
  "adj_init ns = fold (\<lambda>n adj. AList.update (n_id n) [] adj) ns []"

text \<open>\<open>adj.get(k)!.push(v)\<close>\<close>

definition adj_push :: "jsid \<Rightarrow> jsid \<Rightarrow> adjmap \<Rightarrow> error + adjmap" where
  "adj_push k v adj =
     (case map_of adj k of
        None \<Rightarrow> Inl TypeError
      | Some l \<Rightarrow> Inr (AList.update k (l @ [v]) adj))"

fun adj_edges :: "D3Edge list \<Rightarrow> adjmap \<Rightarrow> error + adjmap" where
  "adj_edges [] adj = Inr adj"
| "adj_edges (e # es) adj =
     (case adj_push (source e) (target e) adj of
        Inl x \<Rightarrow> Inl x
      | Inr adj1 \<Rightarrow>
          (case adj_push (target e) (source e) adj1 of
             Inl x \<Rightarrow> Inl x
           | Inr adj2 \<Rightarrow> adj_edges es adj2))"

text \<open>\<open>adj.get(cur) || []\<close>\<close>

definition adj_get :: "adjmap \<Rightarrow> jsid \<Rightarrow> jsid list" where
  "adj_get adj cur = list_or_empty (map_of adj cur)"

subsection \<open>Component labelling (lines 62 to 80)\<close>

text \<open>\<open>nodesIn.find((x) => x.id === cur)!.component = comp\<close>: the first node with the
  id is updated; when there is none the assignment throws.\<close>

fun set_component :: "jsid \<Rightarrow> nat \<Rightarrow> D3Node list \<Rightarrow> D3Node list option" where
  "set_component cur c [] = None"
| "set_component cur c (x # xs) =
     (if n_id x = cur then Some (x\<lparr>n_component := Some c\<rparr> # xs)
      else map_option ((#) x) (set_component cur c xs))"

text \<open>The \<open>for (const nb of ...)\<close> loop of lines 73 to 78. The stack is a list whose
  head is the top (the end of the JavaScript array).\<close>

fun push_unvisited :: "jsid list \<Rightarrow> jsid set \<times> jsid list \<Rightarrow> jsid set \<times> jsid list" where
  "push_unvisited [] vs = vs"
| "push_unvisited (nb # nbs) (visited, stack) =
     (if nb \<notin> visited then push_unvisited nbs (insert nb visited, nb # stack)
      else push_unvisited nbs (visited, stack))"

text \<open>All ids that occur in some adjacency list.\<close>

definition adj_range :: "adjmap \<Rightarrow> jsid set" where
  "adj_range adj = set (concat (map snd adj))"

lemma push_unvisited_measure:
  "push_unvisited nbs (visited, stack) = (visited', stack') \<Longrightarrow> set nbs \<subseteq> U \<Longrightarrow> finite U \<Longrightarrow>
   2 * card (U - visited') + length stack' \<le> 2 * card (U - visited) + length stack"
proof (induction nbs arbitrary: visited stack)
  case Nil
  then show ?case by simp
next
  case (Cons nb nbs)
  show ?case
  proof (cases "nb \<in> visited")
    case True
    with Cons show ?thesis by simp
  next
    case False
    with Cons.prems have step: "push_unvisited nbs (insert nb visited, nb # stack) = (visited', stack')"
      and sub: "set nbs \<subseteq> U" and nbU: "nb \<in> U"
      by simp_all
    from Cons.IH[OF step sub Cons.prems(3)]
    have "2 * card (U - visited') + length stack'
            \<le> 2 * card (U - insert nb visited) + Suc (length stack)"
      by simp
    moreover have "card (U - insert nb visited) < card (U - visited)"
      using False nbU Cons.prems(3)
      by (intro psubset_card_mono) auto
    ultimately show ?thesis by linarith
  qed
qed

lemma adj_get_range: "set (adj_get adj cur) \<subseteq> adj_range adj"
proof (cases "map_of adj cur")
  case None
  then show ?thesis by (simp add: adj_get_def list_or_empty_def)
next
  case (Some l)
  then have "(cur, l) \<in> set adj" by (rule map_of_SomeD)
  then have "set l \<subseteq> adj_range adj"
    by (force simp: adj_range_def)
  with Some show ?thesis by (simp add: adj_get_def list_or_empty_def)
qed

text \<open>The \<open>while (stack.length)\<close> loop of lines 69 to 79.\<close>

function dfs_loop :: "adjmap \<Rightarrow> nat \<Rightarrow> D3Node list \<times> jsid set \<times> jsid list
    \<Rightarrow> error + D3Node list \<times> jsid set" where
  "dfs_loop adj c (ns, visited, []) = Inr (ns, visited)"
| "dfs_loop adj c (ns, visited, cur # stack) =
     (case set_component cur c ns of
        None \<Rightarrow> Inl TypeError
      | Some ns' \<Rightarrow> dfs_loop adj c (ns', push_unvisited (adj_get adj cur) (visited, stack)))"
  by pat_completeness auto
termination
proof (relation "measure (\<lambda>(adj, c, ns, visited, stack).
          2 * card (adj_range adj - visited) + length stack)", goal_cases)
  case 1
  then show ?case by simp
next
  case (2 adj c ns visited cur stack ns')
  obtain v' s' where ps: "push_unvisited (adj_get adj cur) (visited, stack) = (v', s')"
    by (cases "push_unvisited (adj_get adj cur) (visited, stack)")
  have "finite (adj_range adj)" by (simp add: adj_range_def)
  from push_unvisited_measure[OF ps adj_get_range this] ps
  show ?case by simp
qed

text \<open>The \<open>for (const n of nodesIn)\<close> loop of lines 64 to 80, over the ids of the nodes
  (the loop reads only \<open>n.id\<close>, which the body never assigns).\<close>

fun label_loop :: "adjmap \<Rightarrow> jsid list \<Rightarrow> D3Node list \<times> jsid set \<times> nat
    \<Rightarrow> error + D3Node list \<times> jsid set \<times> nat" where
  "label_loop adj [] st = Inr st"
| "label_loop adj (i # ids) (ns, visited, c) =
     (if i \<in> visited then label_loop adj ids (ns, visited, c)
      else
        (case dfs_loop adj (c + 1) (ns, insert i visited, [i]) of
           Inl x \<Rightarrow> Inl x
         | Inr (ns', visited') \<Rightarrow> label_loop adj ids (ns', visited', c + 1)))"

text \<open>Lines 56 to 80: the labelled nodes and the final value of the counter \<open>comp\<close>.\<close>

definition label_components :: "D3Node list \<Rightarrow> D3Edge list \<Rightarrow> error + D3Node list \<times> nat" where
  "label_components ns es =
     (case adj_edges es (adj_init ns) of
        Inl x \<Rightarrow> Inl x
      | Inr adj \<Rightarrow>
          (case label_loop adj (map n_id ns) (ns, {}, 0) of
             Inl x \<Rightarrow> Inl x
           | Inr (ns', visited, c) \<Rightarrow> Inr (ns', c)))"

subsection \<open>Synthetic connectors (lines 83 to 94)\<close>

text \<open>\<open>n.component || 0\<close>\<close>

definition comp_or0 :: "D3Node \<Rightarrow> nat" where
  "comp_or0 n = (case n_component n of None \<Rightarrow> 0 | Some c \<Rightarrow> c)"

text \<open>\<open>Array.from(new Set(xs))\<close>: the first occurrence of each value, in order.\<close>

fun uniq :: "'a list \<Rightarrow> 'a list" where
  "uniq [] = []"
| "uniq (x # xs) = x # filter (\<lambda>y. y \<noteq> x) (uniq xs)"

definition comps :: "D3Node list \<Rightarrow> nat list" where
  "comps ns = sort (uniq (map comp_or0 ns))"

text \<open>Lines 84 to 88. \<open>Map<number, string>\<close> holds the representative's id, which is
  \<open>undefined\<close> when the node has none.\<close>

definition representativeByComp :: "D3Node list \<Rightarrow> nat list \<Rightarrow> (nat \<rightharpoonup> jsid)" where
  "representativeByComp ns cs =
     fold (\<lambda>c m. case find (\<lambda>n. comp_or0 n = c) ns of
                   None \<Rightarrow> m
                 | Some rep \<Rightarrow> m(c \<mapsto> n_id rep)) cs Map.empty"

text \<open>\<open>representativeByComp.get(c)\<close>\<close>

definition rep_get :: "(nat \<rightharpoonup> jsid) \<Rightarrow> nat \<Rightarrow> jsid" where
  "rep_get m c = (case m c of None \<Rightarrow> None | Some v \<Rightarrow> v)"

definition connector :: "jsid \<Rightarrow> jsid \<Rightarrow> D3Edge" where
  "connector a b = \<lparr> source = a, target = b, weight = Some (1 / 10), co_occurrence_count = None \<rparr>"

text \<open>Lines 89 to 94; \<open>comps.length - 1\<close> is \<open>-1\<close> for the empty array, and the loop
  does not run then.\<close>

definition syntheticEdges :: "(nat \<rightharpoonup> jsid) \<Rightarrow> nat list \<Rightarrow> D3Edge list" where
  "syntheticEdges m cs =
     concat (map (\<lambda>i. let a = rep_get m (cs ! i); b = rep_get m (cs ! (i + 1))
                      in if truthy a \<and> truthy b then [connector a b] else [])
                 [0 ..< length cs - 1])"

definition connectors :: "D3Node list \<Rightarrow> D3Edge list" where
  "connectors ns = syntheticEdges (representativeByComp ns (comps ns)) (comps ns)"

subsection \<open>The callback\<close>

definition KnowledgeGraph :: "payload \<Rightarrow> error + layout_graph" where
  "KnowledgeGraph p =
     (case label_components (nodesIn p) (edgesIn p) of
        Inl x \<Rightarrow> Inl x
      | Inr (ns, c) \<Rightarrow> Inr \<lparr> nodes = ns, edges = edgesIn p @ connectors ns \<rparr>)"

section \<open>Vocabulary of the properties\<close>

text \<open>The undirected relation of an edge list: each edge relates its endpoints both ways.\<close>

definition edge_rel :: "D3Edge list \<Rightarrow> (jsid \<times> jsid) set" where
  "edge_rel es = (\<lambda>e. (source e, target e)) ` set es \<union> (\<lambda>e. (target e, source e)) ` set es"

text \<open>Two ids are joined when an undirected path of edges of the list leads from one to the
  other (the empty path included).\<close>

definition joined :: "D3Edge list \<Rightarrow> jsid \<Rightarrow> jsid \<Rightarrow> bool" where
  "joined es u v \<longleftrightarrow> (u, v) \<in> (edge_rel es)\<^sup>*"

text \<open>The \<open>component\<close> that \<open>nodesIn.find((x) => x.id === i)\<close> carries: that of the first
  node with the id.\<close>

definition component_of :: "D3Node list \<Rightarrow> jsid \<Rightarrow> nat option" where
  "component_of ns i = (case find (\<lambda>n. n_id n = i) ns of None \<Rightarrow> None | Some n \<Rightarrow> n_component n)"

text \<open>A node without its \<open>component\<close>: what line 44 built.\<close>

definition unlabelled :: "D3Node \<Rightarrow> D3Node" where
  "unlabelled n = n\<lparr>n_component := None\<rparr>"

text \<open>The data model of the payload: no node id occurs twice.\<close>

definition unique_ids :: "payload \<Rightarrow> bool" where
  "unique_ids p \<longleftrightarrow> distinct (map r_id (list_or_empty (graph_nodes p)))"

text \<open>A canonical node read again as a raw node: the object has \<open>id\<close>, \<open>label\<close>,
  \<open>importance\<close>, \<open>frequency\<close> and \<open>degree\<close>, and no \<open>size\<close>.\<close>

definition as_raw :: "D3Node \<Rightarrow> RawNode" where
  "as_raw n = \<lparr> r_id = n_id n, r_label = n_label n, r_size = None,
                r_importance = Some (n_importance n), r_frequency = Some (n_frequency n),
                r_degree = Some (n_degree n) \<rparr>"

text \<open>The output of the normalisation step (lines 44 to 53), as a payload.\<close>

definition normalized :: "payload \<Rightarrow> payload" where
  "normalized p = \<lparr> graph_nodes = Some (map as_raw (nodesIn p)), graph_edges = Some (edgesIn p) \<rparr>"

text \<open>The ids in the adjacency list of a key.\<close>

definition nbrs :: "adjmap \<Rightarrow> jsid \<Rightarrow> jsid set" where
  "nbrs adj k = set (adj_get adj k)"

text \<open>Invariant of the \<open>while\<close> loop started at \<open>s\<close> with counter \<open>c\<close>, where \<open>V\<close> was visited
  before and \<open>nsA\<close> are the nodes at the start: the newly visited ids are reachable from
  \<open>s\<close>; those no longer on the stack carry \<open>c\<close> and have all their neighbours visited;
  no other component has changed.\<close>

definition dfs_inv :: "(jsid \<times> jsid) set \<Rightarrow> D3Node list \<Rightarrow> jsid set \<Rightarrow> jsid \<Rightarrow> nat
    \<Rightarrow> D3Node list \<times> jsid set \<times> jsid list \<Rightarrow> bool" where
  "dfs_inv R nsA V s c st \<longleftrightarrow>
     (case st of (ns, visited, stack) \<Rightarrow>
       map n_id ns = map n_id nsA \<and>
       V \<subseteq> visited \<and> visited \<subseteq> V \<union> R\<^sup>* `` {s} \<and> s \<in> visited \<and>
       set stack \<subseteq> visited - V \<and>
       (\<forall>i \<in> visited - V - set stack. R `` {i} \<subseteq> visited \<and> component_of ns i = Some c) \<and>
       (\<forall>i. i \<notin> visited - V \<longrightarrow> component_of ns i = component_of nsA i))"

text \<open>Invariant of the \<open>for\<close> loop over the nodes: the visited ids are closed under the
  edges, exactly they are labelled, with values from 1 to the counter, all of which are in
  use, and two of them carry the same value exactly when they are joined.\<close>

definition lab_inv :: "(jsid \<times> jsid) set \<Rightarrow> D3Node list \<Rightarrow> D3Node list \<times> jsid set \<times> nat \<Rightarrow> bool" where
  "lab_inv R ns0 st \<longleftrightarrow>
     (case st of (ns, visited, c) \<Rightarrow>
       map n_id ns = map n_id ns0 \<and>
       visited \<subseteq> nodeIdSet ns0 \<and> R `` visited \<subseteq> visited \<and>
       (\<forall>i. i \<notin> visited \<longrightarrow> component_of ns i = None) \<and>
       (\<forall>i \<in> visited. \<exists>k. component_of ns i = Some k \<and> 1 \<le> k \<and> k \<le> c) \<and>
       (\<forall>i \<in> visited. \<forall>j \<in> visited. component_of ns i = component_of ns j \<longleftrightarrow> (i, j) \<in> R\<^sup>*) \<and>
       (\<forall>k. 1 \<le> k \<and> k \<le> c \<longrightarrow> (\<exists>i \<in> visited. component_of ns i = Some k)))"

text \<open>A raw node with an id and no optional field, and a raw edge without weight, for the
  examples.\<close>

definition raw_node :: "string \<Rightarrow> RawNode" where
  "raw_node s = \<lparr> r_id = Some s, r_label = None, r_size = None, r_importance = None,
                  r_frequency = None, r_degree = None \<rparr>"

definition raw_edge :: "string \<Rightarrow> string \<Rightarrow> D3Edge" where
  "raw_edge a b = \<lparr> source = Some a, target = Some b, weight = None, co_occurrence_count = None \<rparr>"

text \<open>The representative of a component: the id of the first node, in node order, that
  carries it (lines 86 and 87).\<close>

definition representative :: "D3Node list \<Rightarrow> nat \<Rightarrow> jsid" where
  "representative ns c = (case find (\<lambda>n. comp_or0 n = c) ns of None \<Rightarrow> None | Some rep \<Rightarrow> n_id rep)"

text \<open>The output graph is connected: any two of its node ids are joined by its edges.\<close>

definition connected_graph :: "layout_graph \<Rightarrow> bool" where
  "connected_graph g \<longleftrightarrow>
     (\<forall>u \<in> n_id ` set (nodes g). \<forall>v \<in> n_id ` set (nodes g). joined (edges g) u v)"

text \<open>Every node id of the payload is truthy in JavaScript: present and not the empty
  string.\<close>

definition truthy_ids :: "payload \<Rightarrow> bool" where
  "truthy_ids p \<longleftrightarrow> (\<forall>n \<in> set (list_or_empty (graph_nodes p)). truthy (r_id n))"

text \<open>A payload for the examples: two clusters, \<open>{A, B}\<close> and \<open>{C}\<close>, and an edge to an id
  \<open>Z\<close> that no node has; the same payload with both lists reordered; and the graph the
  callback returns for the first.\<close>

definition example_payload :: payload where
  "example_payload =
     \<lparr> graph_nodes = Some [raw_node ''A'', raw_node ''B'', raw_node ''C''],
       graph_edges = Some [raw_edge ''A'' ''B'', raw_edge ''C'' ''Z''] \<rparr>"

definition example_permuted :: payload where
  "example_permuted =
     \<lparr> graph_nodes = Some [raw_node ''C'', raw_node ''B'', raw_node ''A''],
       graph_edges = Some [raw_edge ''C'' ''Z'', raw_edge ''A'' ''B''] \<rparr>"

definition labelled_node :: "string \<Rightarrow> nat \<Rightarrow> D3Node" where
  "labelled_node s c = \<lparr> n_id = Some s, n_label = Some s, n_importance = 1 / 5, n_frequency = 0,
                          n_degree = 0, n_component = Some c \<rparr>"

definition example_graph :: layout_graph where
  "example_graph =
     \<lparr> nodes = [labelled_node ''A'' 1, labelled_node ''B'' 1, labelled_node ''C'' 2],
       edges = [raw_edge ''A'' ''B'', connector (Some ''A'') (Some ''C'')] \<rparr>"

text \<open>The graph the callback returns for the reordered example.\<close>

definition example_permuted_graph :: layout_graph where
  "example_permuted_graph =
     \<lparr> nodes = [labelled_node ''C'' 1, labelled_node ''B'' 2, labelled_node ''A'' 2],
       edges = [raw_edge ''A'' ''B'', connector (Some ''C'') (Some ''B'')] \<rparr>"

text \<open>A payload outside the data model: two nodes share the id \<open>A\<close> (their labels
  \<open>x\<close> and \<open>y\<close> tell them apart), and an edge joins \<open>A\<close> and \<open>B\<close>; the same payload
  with the two nodes exchanged; and the graphs the callback returns for them.\<close>

definition dup_payload :: payload where
  "dup_payload =
     \<lparr> graph_nodes = Some [(raw_node ''A'')\<lparr>r_label := Some ''x''\<rparr>,
                           (raw_node ''A'')\<lparr>r_label := Some ''y''\<rparr>, raw_node ''B''],
       graph_edges = Some [raw_edge ''A'' ''B''] \<rparr>"

definition dup_permuted :: payload where
  "dup_permuted =
     \<lparr> graph_nodes = Some [(raw_node ''A'')\<lparr>r_label := Some ''y''\<rparr>,
                           (raw_node ''A'')\<lparr>r_label := Some ''x''\<rparr>, raw_node ''B''],
       graph_edges = Some [raw_edge ''A'' ''B''] \<rparr>"

definition dup_graph :: layout_graph where
  "dup_graph =
     \<lparr> nodes = [(labelled_node ''A'' 1)\<lparr>n_label := Some ''x''\<rparr>,
                (labelled_node ''A'' 1)\<lparr>n_label := Some ''y'', n_component := None\<rparr>,
                labelled_node ''B'' 1],
       edges = [raw_edge ''A'' ''B'', connector (Some ''A'') (Some ''A'')] \<rparr>"

definition dup_permuted_graph :: layout_graph where
  "dup_permuted_graph =
     \<lparr> nodes = [(labelled_node ''A'' 1)\<lparr>n_label := Some ''y''\<rparr>,
                (labelled_node ''A'' 1)\<lparr>n_label := Some ''x'', n_component := None\<rparr>,
                labelled_node ''B'' 1],
       edges = [raw_edge ''A'' ''B'', connector (Some ''A'') (Some ''A'')] \<rparr>"

section \<open>The labelling loops\<close>

subsection \<open>Assigning a component, pushing neighbours\<close>

lemma edge_rel_sym: "sym (edge_rel es)"
  by (auto simp: edge_rel_def sym_def)

lemma edge_rel_set: "set es = set es' \<Longrightarrow> edge_rel es = edge_rel es'"
  by (simp add: edge_rel_def)

lemma set_component_Some:
  "i \<in> nodeIdSet ns \<Longrightarrow> \<exists>ns'. set_component i c ns = Some ns'"
  by (induction ns) (auto simp: nodeIdSet_def)

lemma set_component_ids:
  "set_component i c ns = Some ns' \<Longrightarrow> map n_id ns' = map n_id ns"
  by (induction ns arbitrary: ns') (auto split: if_splits)

lemma set_component_of:
  "set_component i c ns = Some ns' \<Longrightarrow> component_of ns' = (component_of ns)(i := Some c)"
proof (induction ns arbitrary: ns')
  case Nil
  then show ?case by simp
next
  case (Cons x xs)
  show ?case
  proof (cases "n_id x = i")
    case True
    with Cons.prems show ?thesis
      by (auto simp: component_of_def fun_eq_iff)
  next
    case False
    with Cons.prems obtain ys where ys: "set_component i c xs = Some ys" and ns': "ns' = x # ys"
      by auto
    from Cons.IH[OF ys] have "component_of ys = (component_of xs)(i := Some c)" .
    then have "\<And>j. component_of ys j = ((component_of xs)(i := Some c)) j" by simp
    with False ns' show ?thesis
      by (auto simp: component_of_def fun_eq_iff)
  qed
qed

lemma push_unvisited_sets:
  "push_unvisited nbs (V, st) = (V', st') \<Longrightarrow> V' = V \<union> set nbs \<and> set st' = set st \<union> (set nbs - V)"
proof (induction nbs arbitrary: V st)
  case Nil
  then show ?case by simp
next
  case (Cons nb nbs)
  show ?case
  proof (cases "nb \<in> V")
    case True
    with Cons.prems have "push_unvisited nbs (V, st) = (V', st')" by simp
    from Cons.IH[OF this] True show ?thesis by auto
  next
    case False
    with Cons.prems have "push_unvisited nbs (insert nb V, nb # st) = (V', st')" by simp
    from Cons.IH[OF this] False show ?thesis by auto
  qed
qed

subsection \<open>The adjacency map\<close>

lemma adj_init_map: "map_of (adj_init ns) k = (if k \<in> nodeIdSet ns then Some [] else None)"
proof -
  have "map_of (fold (\<lambda>n adj. AList.update (n_id n) [] adj) ns al) k
          = (if k \<in> n_id ` set ns then Some [] else map_of al k)" for al :: adjmap
    by (induction ns arbitrary: al) (auto simp: update_conv')
  then show ?thesis by (simp add: adj_init_def nodeIdSet_def)
qed

lemma adj_push_Inr:
  "map_of adj k = Some l \<Longrightarrow>
   \<exists>adj'. adj_push k v adj = Inr adj' \<and> map_of adj' = (map_of adj)(k \<mapsto> l @ [v])"
  by (simp add: adj_push_def update_conv')

lemma adj_edges_Inr:
  "\<forall>e \<in> set es. source e \<in> dom (map_of adj) \<and> target e \<in> dom (map_of adj) \<Longrightarrow>
   \<exists>adj'. adj_edges es adj = Inr adj' \<and> dom (map_of adj') = dom (map_of adj) \<and>
      (\<forall>k. nbrs adj' k = nbrs adj k \<union> edge_rel es `` {k})"
proof (induction es arbitrary: adj)
  case Nil
  then show ?case by (simp add: edge_rel_def)
next
  case (Cons e es)
  from Cons.prems obtain l1 where l1: "map_of adj (source e) = Some l1" by auto
  from adj_push_Inr[OF l1] obtain adj1 where
    a1: "adj_push (source e) (target e) adj = Inr adj1" and
    m1: "map_of adj1 = (map_of adj)(source e \<mapsto> l1 @ [target e])" by blast
  from Cons.prems m1 obtain l2 where l2: "map_of adj1 (target e) = Some l2"
    by (cases "target e = source e") auto
  from adj_push_Inr[OF l2] obtain adj2 where
    a2: "adj_push (target e) (source e) adj1 = Inr adj2" and
    m2: "map_of adj2 = (map_of adj1)(target e \<mapsto> l2 @ [source e])" by blast
  have dom2: "dom (map_of adj2) = dom (map_of adj)"
    using m1 m2 l1 l2 Cons.prems by auto
  have n2: "nbrs adj2 k = nbrs adj k \<union> edge_rel [e] `` {k}" for k
    using m1 m2 l1 l2
    by (auto simp: nbrs_def adj_get_def list_or_empty_def edge_rel_def split: if_splits option.splits)
  from Cons.prems dom2 have "\<forall>e \<in> set es. source e \<in> dom (map_of adj2) \<and> target e \<in> dom (map_of adj2)"
    by simp
  from Cons.IH[OF this] obtain adj' where
    r: "adj_edges es adj2 = Inr adj'" and d: "dom (map_of adj') = dom (map_of adj2)" and
    n: "\<forall>k. nbrs adj' k = nbrs adj2 k \<union> edge_rel es `` {k}" by blast
  have "edge_rel (e # es) = edge_rel [e] \<union> edge_rel es"
    by (auto simp: edge_rel_def)
  with n n2 have "\<forall>k. nbrs adj' k = nbrs adj k \<union> edge_rel (e # es) `` {k}"
    by auto
  with a1 a2 r d dom2 show ?case by simp
qed

lemma build_adj:
  assumes "\<forall>e \<in> set es. retained ns e"
  shows "\<exists>adj. adj_edges es (adj_init ns) = Inr adj \<and> (\<forall>k. set (adj_get adj k) = edge_rel es `` {k})"
proof -
  have dom0: "dom (map_of (adj_init ns)) = nodeIdSet ns"
    by (auto simp: adj_init_map dom_def)
  have n0: "nbrs (adj_init ns) k = {}" for k
    by (simp add: nbrs_def adj_get_def adj_init_map list_or_empty_def)
  from assms dom0 have "\<forall>e \<in> set es. source e \<in> dom (map_of (adj_init ns)) \<and> target e \<in> dom (map_of (adj_init ns))"
    by (simp add: retained_def)
  from adj_edges_Inr[OF this] n0 show ?thesis
    by (auto simp: nbrs_def)
qed

subsection \<open>The depth-first search from one node\<close>

lemma dfs_inv_step:
  assumes inv: "dfs_inv R nsA V s c (ns, visited, cur # stack)"
    and sc: "set_component cur c ns = Some ns'"
    and pu: "push_unvisited (adj_get adj cur) (visited, stack) = (visited', stack')"
    and adj: "\<forall>k. set (adj_get adj k) = R `` {k}"
  shows "dfs_inv R nsA V s c (ns', visited', stack')"
proof -
  from push_unvisited_sets[OF pu] adj
  have v': "visited' = visited \<union> R `` {cur}" and s': "set stack' = set stack \<union> (R `` {cur} - visited)"
    by simp_all
  from set_component_of[OF sc]
  have co: "\<And>i. component_of ns' i = (if i = cur then Some c else component_of ns i)"
    by simp
  from inv have ids: "map n_id ns = map n_id nsA"
    and Vv: "V \<subseteq> visited" and vR: "visited \<subseteq> V \<union> R\<^sup>* `` {s}" and sv: "s \<in> visited"
    and st: "set (cur # stack) \<subseteq> visited - V"
    and dn: "\<forall>i \<in> visited - V - set (cur # stack). R `` {i} \<subseteq> visited \<and> component_of ns i = Some c"
    and un: "\<forall>i. i \<notin> visited - V \<longrightarrow> component_of ns i = component_of nsA i"
    by (simp_all add: dfs_inv_def)
  from st have curv: "cur \<in> visited" "cur \<notin> V" by auto
  with vR have "(s, cur) \<in> R\<^sup>*" by auto
  then have Rcur: "R `` {cur} \<subseteq> R\<^sup>* `` {s}"
    by (auto intro: rtrancl_into_rtrancl)
  have 1: "map n_id ns' = map n_id nsA"
    using set_component_ids[OF sc] ids by simp
  have 2: "V \<subseteq> visited'" using Vv v' by auto
  have 3: "visited' \<subseteq> V \<union> R\<^sup>* `` {s}" using vR Rcur v' by auto
  have 4: "s \<in> visited'" using sv v' by auto
  have 5: "set stack' \<subseteq> visited' - V" using st s' v' Vv by auto
  have 6: "\<forall>i \<in> visited' - V - set stack'. R `` {i} \<subseteq> visited' \<and> component_of ns' i = Some c"
  proof
    fix i assume i: "i \<in> visited' - V - set stack'"
    show "R `` {i} \<subseteq> visited' \<and> component_of ns' i = Some c"
    proof (cases "i = cur")
      case True
      then show ?thesis using v' co by auto
    next
      case False
      with i v' s' have "i \<in> visited - V - set (cur # stack)" by auto
      with dn have "R `` {i} \<subseteq> visited \<and> component_of ns i = Some c" by blast
      with False v' co show ?thesis by auto
    qed
  qed
  have 7: "\<forall>i. i \<notin> visited' - V \<longrightarrow> component_of ns' i = component_of nsA i"
  proof (intro allI impI)
    fix i assume i: "i \<notin> visited' - V"
    with curv v' have "i \<noteq> cur" "i \<notin> visited - V" by auto
    with un co show "component_of ns' i = component_of nsA i" by simp
  qed
  from 1 2 3 4 5 6 7 show ?thesis by (simp add: dfs_inv_def)
qed

lemma dfs_loop_inv:
  "dfs_inv R nsA V s c st \<Longrightarrow> \<forall>k. set (adj_get adj k) = R `` {k} \<Longrightarrow>
   R\<^sup>* `` {s} \<subseteq> nodeIdSet nsA \<Longrightarrow>
     \<exists>ns' visited'. dfs_loop adj c st = Inr (ns', visited') \<and> dfs_inv R nsA V s c (ns', visited', [])"
proof (induction adj c st rule: dfs_loop.induct)
  case (1 adj c ns visited)
  then show ?case by simp
next
  case (2 adj c ns visited cur stack)
  note inv = "2.prems"(1) and adj = "2.prems"(2) and rng = "2.prems"(3)
  from inv have "cur \<in> visited - V" "visited \<subseteq> V \<union> R\<^sup>* `` {s}" "map n_id ns = map n_id nsA"
    by (simp_all add: dfs_inv_def)
  with rng have "cur \<in> nodeIdSet ns"
    by (auto simp: nodeIdSet_def)
  from set_component_Some[OF this] obtain ns' where sc: "set_component cur c ns = Some ns'"
    by blast
  obtain visited' stack' where pu: "push_unvisited (adj_get adj cur) (visited, stack) = (visited', stack')"
    by (cases "push_unvisited (adj_get adj cur) (visited, stack)")
  from dfs_inv_step[OF inv sc pu adj]
  have "dfs_inv R nsA V s c (ns', visited', stack')" .
  with "2.IH"[OF sc _ adj rng] pu
  have "\<exists>ns'' visited''. dfs_loop adj c (ns', visited', stack') = Inr (ns'', visited'') \<and>
          dfs_inv R nsA V s c (ns'', visited'', [])" by simp
  with sc pu show ?case by simp
qed

lemma closed_sym_disjoint:
  assumes "sym R" and "R `` V \<subseteq> V" and "(a, b) \<in> R\<^sup>*" and "b \<in> V"
  shows "a \<in> V"
  using assms(3,4)
proof (induction rule: rtrancl_induct)
  case base
  then show ?case .
next
  case (step y z)
  from step.hyps(2) assms(1) have "(z, y) \<in> R" by (auto dest: symD)
  with step.prems assms(2) have "y \<in> V" by auto
  then show ?case by (rule step.IH)
qed

lemma dfs_loop_correct:
  assumes adj: "\<forall>k. set (adj_get adj k) = R `` {k}"
    and rng: "R\<^sup>* `` {s} \<subseteq> nodeIdSet ns"
    and symR: "sym R" and closed: "R `` V \<subseteq> V" and sV: "s \<notin> V"
  shows "\<exists>ns'. dfs_loop adj c (ns, insert s V, [s]) = Inr (ns', V \<union> R\<^sup>* `` {s}) \<and>
           map n_id ns' = map n_id ns \<and>
           (\<forall>i. component_of ns' i = (if i \<in> R\<^sup>* `` {s} then Some c else component_of ns i))"
proof -
  have "dfs_inv R ns V s c (ns, insert s V, [s])"
    using sV by (auto simp: dfs_inv_def)
  from dfs_loop_inv[OF this adj rng] obtain ns' visited' where
    run: "dfs_loop adj c (ns, insert s V, [s]) = Inr (ns', visited')" and
    fin: "dfs_inv R ns V s c (ns', visited', [])" by blast
  from fin have ids: "map n_id ns' = map n_id ns"
    and Vv: "V \<subseteq> visited'" and vR: "visited' \<subseteq> V \<union> R\<^sup>* `` {s}" and sv: "s \<in> visited'"
    and dn: "\<forall>i \<in> visited' - V. R `` {i} \<subseteq> visited' \<and> component_of ns' i = Some c"
    and un: "\<forall>i. i \<notin> visited' - V \<longrightarrow> component_of ns' i = component_of ns i"
    by (simp_all add: dfs_inv_def)
  have disj: "i \<notin> V" if "(s, i) \<in> R\<^sup>*" for i
  proof
    assume "i \<in> V"
    from closed_sym_disjoint[OF symR closed that this] sV show False by simp
  qed
  have reach: "i \<in> visited' - V" if "(s, i) \<in> R\<^sup>*" for i
    using that
  proof (induction rule: rtrancl_induct)
    case base
    then show ?case using sv sV by simp
  next
    case (step y z)
    from step.IH dn step.hyps(2) have "z \<in> visited'" by auto
    moreover from step.hyps have "(s, z) \<in> R\<^sup>*" by auto
    then have "z \<notin> V" by (rule disj)
    ultimately show ?case by simp
  qed
  have D: "visited' - V = R\<^sup>* `` {s}"
    using reach vR by auto
  with Vv have "visited' = V \<union> R\<^sup>* `` {s}" by auto
  moreover have "\<forall>i. component_of ns' i = (if i \<in> R\<^sup>* `` {s} then Some c else component_of ns i)"
    using dn un D by auto
  ultimately show ?thesis using run ids by simp
qed

subsection \<open>The loop over the nodes\<close>

lemma reach_in_ids:
  assumes "R \<subseteq> I \<times> I" and "i \<in> I"
  shows "R\<^sup>* `` {i} \<subseteq> I"
proof
  fix j assume "j \<in> R\<^sup>* `` {i}"
  then have "(i, j) \<in> R\<^sup>*" by simp
  then show "j \<in> I"
    using assms by (induction rule: rtrancl_induct) auto
qed

lemma sym_rtrancl_rev: "sym R \<Longrightarrow> (a, b) \<in> R\<^sup>* \<Longrightarrow> (b, a) \<in> R\<^sup>*"
  by (metis sym_rtrancl symD)

lemma lab_inv_step:
  assumes inv: "lab_inv R ns0 (ns, visited, c)"
    and i: "i \<in> nodeIdSet ns0" "i \<notin> visited"
    and symR: "sym R" and fld: "R \<subseteq> nodeIdSet ns0 \<times> nodeIdSet ns0"
    and adj: "\<forall>k. set (adj_get adj k) = R `` {k}"
  shows "\<exists>ns' visited'. dfs_loop adj (c + 1) (ns, insert i visited, [i]) = Inr (ns', visited') \<and>
           lab_inv R ns0 (ns', visited', c + 1) \<and> insert i visited \<subseteq> visited'"
proof -
  let ?C = "R\<^sup>* `` {i}"
  from inv have ids: "map n_id ns = map n_id ns0"
    and vI: "visited \<subseteq> nodeIdSet ns0" and cl: "R `` visited \<subseteq> visited"
    and un: "\<forall>j. j \<notin> visited \<longrightarrow> component_of ns j = None"
    and bd: "\<forall>j \<in> visited. \<exists>k. component_of ns j = Some k \<and> 1 \<le> k \<and> k \<le> c"
    and eq: "\<forall>a \<in> visited. \<forall>b \<in> visited. component_of ns a = component_of ns b \<longleftrightarrow> (a, b) \<in> R\<^sup>*"
    and us: "\<forall>k. 1 \<le> k \<and> k \<le> c \<longrightarrow> (\<exists>j \<in> visited. component_of ns j = Some k)"
    by (simp_all add: lab_inv_def)
  have CI: "?C \<subseteq> nodeIdSet ns0" by (rule reach_in_ids[OF fld i(1)])
  from ids have same: "nodeIdSet ns = nodeIdSet ns0" by (simp add: nodeIdSet_def)
  from dfs_loop_correct[OF adj _ symR cl i(2), of ns "c + 1"] CI same
  obtain ns' where run: "dfs_loop adj (c + 1) (ns, insert i visited, [i]) = Inr (ns', visited \<union> ?C)"
    and ids': "map n_id ns' = map n_id ns"
    and co: "\<And>j. component_of ns' j = (if j \<in> ?C then Some (c + 1) else component_of ns j)"
    by auto
  have disj: "j \<notin> visited" if "j \<in> ?C" for j
  proof
    assume "j \<in> visited"
    moreover from that have "(i, j) \<in> R\<^sup>*" by simp
    ultimately have "i \<in> visited" using closed_sym_disjoint[OF symR cl] by blast
    with i(2) show False by simp
  qed
  have Cjoin: "(a, b) \<in> R\<^sup>*" if "a \<in> ?C" "b \<in> ?C" for a b
  proof -
    from that have "(i, a) \<in> R\<^sup>*" "(i, b) \<in> R\<^sup>*" by simp_all
    from sym_rtrancl_rev[OF symR this(1)] this(2) show ?thesis by (rule rtrancl_trans)
  qed
  have Cclosed: "b \<in> ?C" if "a \<in> ?C" "(a, b) \<in> R\<^sup>*" for a b
    using that by (auto intro: rtrancl_trans)
  have 1: "map n_id ns' = map n_id ns0" using ids ids' by simp
  have 2: "visited \<union> ?C \<subseteq> nodeIdSet ns0" using vI CI by simp
  have 3: "R `` (visited \<union> ?C) \<subseteq> visited \<union> ?C"
    using cl by (auto intro: rtrancl_into_rtrancl)
  have 4: "\<forall>j. j \<notin> visited \<union> ?C \<longrightarrow> component_of ns' j = None"
    using un co by simp
  have 5: "\<forall>j \<in> visited \<union> ?C. \<exists>k. component_of ns' j = Some k \<and> 1 \<le> k \<and> k \<le> c + 1"
  proof
    fix j assume "j \<in> visited \<union> ?C"
    show "\<exists>k. component_of ns' j = Some k \<and> 1 \<le> k \<and> k \<le> c + 1"
    proof (cases "j \<in> ?C")
      case True
      then show ?thesis using co by simp
    next
      case False
      with \<open>j \<in> visited \<union> ?C\<close> have "j \<in> visited" by simp
      with bd obtain k where "component_of ns j = Some k" "1 \<le> k" "k \<le> c" by blast
      with False co show ?thesis by simp
    qed
  qed
  have 6: "\<forall>a \<in> visited \<union> ?C. \<forall>b \<in> visited \<union> ?C.
             component_of ns' a = component_of ns' b \<longleftrightarrow> (a, b) \<in> R\<^sup>*"
  proof (intro ballI)
    fix a b assume ab: "a \<in> visited \<union> ?C" "b \<in> visited \<union> ?C"
    consider (CC) "a \<in> ?C" "b \<in> ?C" | (CV) "a \<in> ?C" "b \<notin> ?C" | (VC) "a \<notin> ?C" "b \<in> ?C"
      | (VV) "a \<notin> ?C" "b \<notin> ?C" by blast
    then show "component_of ns' a = component_of ns' b \<longleftrightarrow> (a, b) \<in> R\<^sup>*"
    proof cases
      case CC
      then show ?thesis using co Cjoin by simp
    next
      case CV
      with ab have "b \<in> visited" by simp
      with bd obtain k where "component_of ns b = Some k" "k \<le> c" by blast
      moreover from CV Cclosed have "(a, b) \<notin> R\<^sup>*" by blast
      ultimately show ?thesis using CV co by simp
    next
      case VC
      with ab have "a \<in> visited" by simp
      with bd obtain k where "component_of ns a = Some k" "k \<le> c" by blast
      moreover have "(a, b) \<notin> R\<^sup>*"
      proof
        assume "(a, b) \<in> R\<^sup>*"
        from sym_rtrancl_rev[OF symR this] VC(2) Cclosed have "a \<in> ?C" by blast
        with VC(1) show False by simp
      qed
      ultimately show ?thesis using VC co by simp
    next
      case VV
      with ab have "a \<in> visited" "b \<in> visited" by simp_all
      with eq VV co show ?thesis by simp
    qed
  qed
  have 7: "\<forall>k. 1 \<le> k \<and> k \<le> c + 1 \<longrightarrow> (\<exists>j \<in> visited \<union> ?C. component_of ns' j = Some k)"
  proof (intro allI impI)
    fix k assume k: "1 \<le> k \<and> k \<le> c + 1"
    show "\<exists>j \<in> visited \<union> ?C. component_of ns' j = Some k"
    proof (cases "k = c + 1")
      case True
      have "i \<in> ?C" by simp
      with True co show ?thesis by (intro bexI[of _ i]) simp_all
    next
      case False
      with k us obtain j where j: "j \<in> visited" "component_of ns j = Some k" by auto
      with disj have "j \<notin> ?C" by blast
      with j co show ?thesis by (intro bexI[of _ j]) simp_all
    qed
  qed
  have "lab_inv R ns0 (ns', visited \<union> ?C, c + 1)"
    using 1 2 3 4 5 6 7 by (simp add: lab_inv_def)
  moreover have "insert i visited \<subseteq> visited \<union> ?C" by auto
  ultimately show ?thesis using run by blast
qed

lemma label_loop_inv:
  "lab_inv R ns0 st \<Longrightarrow> set is \<subseteq> nodeIdSet ns0 \<Longrightarrow> sym R \<Longrightarrow>
   R \<subseteq> nodeIdSet ns0 \<times> nodeIdSet ns0 \<Longrightarrow> \<forall>k. set (adj_get adj k) = R `` {k} \<Longrightarrow>
   \<exists>ns' visited' c'. label_loop adj is st = Inr (ns', visited', c') \<and>
      lab_inv R ns0 (ns', visited', c') \<and> set is \<union> fst (snd st) \<subseteq> visited'"
proof (induction adj "is" st rule: label_loop.induct)
  case (1 adj st)
  then show ?case by (cases st) auto
next
  case (2 adj i ids ns visited c)
  note inv = "2.prems"(1) and sub = "2.prems"(2) and symR = "2.prems"(3)
    and fld = "2.prems"(4) and adj = "2.prems"(5)
  from sub have sub': "set ids \<subseteq> nodeIdSet ns0" and iI: "i \<in> nodeIdSet ns0" by simp_all
  show ?case
  proof (cases "i \<in> visited")
    case True
    from "2.IH"(1)[OF True inv sub' symR fld adj] True show ?thesis by auto
  next
    case False
    from lab_inv_step[OF inv iI False symR fld adj] obtain ns' visited' where
      run: "dfs_loop adj (c + 1) (ns, insert i visited, [i]) = Inr (ns', visited')" and
      inv': "lab_inv R ns0 (ns', visited', c + 1)" and mono: "insert i visited \<subseteq> visited'"
      by blast
    from "2.IH"(2)[OF False run refl inv' sub' symR fld adj]
    obtain ns'' visited'' c'' where
      "label_loop adj ids (ns', visited', c + 1) = Inr (ns'', visited'', c'')"
      "lab_inv R ns0 (ns'', visited'', c'')" "set ids \<union> visited' \<subseteq> visited''"
      by auto
    with False run mono show ?thesis by auto
  qed
qed

text \<open>The values are issued in node order: a search leaves the visited nodes as they
  are and gives the next value to its start node, so that after any number of nodes the
  values in use among them are an initial segment.\<close>

lemma dfs_step_frame:
  assumes inv: "lab_inv R ns0 (ns, visited, c)"
    and i: "i \<in> nodeIdSet ns0" "i \<notin> visited"
    and symR: "sym R" and fld: "R \<subseteq> nodeIdSet ns0 \<times> nodeIdSet ns0"
    and adj: "\<forall>k. set (adj_get adj k) = R `` {k}"
    and run: "dfs_loop adj (c + 1) (ns, insert i visited, [i]) = Inr (ns', visited')"
  shows "component_of ns' i = Some (c + 1)"
    and "\<forall>j \<in> visited. component_of ns' j = component_of ns j"
proof -
  from inv have ids: "map n_id ns = map n_id ns0" and cl: "R `` visited \<subseteq> visited"
    by (simp_all add: lab_inv_def)
  from ids have same: "nodeIdSet ns = nodeIdSet ns0" by (simp add: nodeIdSet_def)
  have CI: "R\<^sup>* `` {i} \<subseteq> nodeIdSet ns" unfolding same by (rule reach_in_ids[OF fld i(1)])
  from dfs_loop_correct[OF adj CI symR cl i(2), of "c + 1"] run
  have co: "\<And>j. component_of ns' j = (if j \<in> R\<^sup>* `` {i} then Some (c + 1) else component_of ns j)"
    by auto
  show "component_of ns' i = Some (c + 1)" by (simp add: co)
  show "\<forall>j \<in> visited. component_of ns' j = component_of ns j"
  proof
    fix j assume j: "j \<in> visited"
    have "j \<notin> R\<^sup>* `` {i}"
    proof
      assume "j \<in> R\<^sup>* `` {i}"
      then have "(i, j) \<in> R\<^sup>*" by simp
      from closed_sym_disjoint[OF symR cl this j] i(2) show False by simp
    qed
    then show "component_of ns' j = component_of ns j" by (simp add: co)
  qed
qed

lemma label_loop_order:
  "lab_inv R ns0 st \<Longrightarrow> set is \<subseteq> nodeIdSet ns0 \<Longrightarrow> sym R \<Longrightarrow>
   R \<subseteq> nodeIdSet ns0 \<times> nodeIdSet ns0 \<Longrightarrow> \<forall>k. set (adj_get adj k) = R `` {k} \<Longrightarrow>
   label_loop adj is st = Inr (ns', visited', c') \<Longrightarrow>
   (\<forall>j \<in> fst (snd st). component_of ns' j = component_of (fst st) j) \<and>
   (\<forall>l \<le> length is. \<exists>m. snd (snd st) \<le> m \<and> m \<le> c' \<and>
      (\<forall>x \<in> set (take l is). \<exists>k. component_of ns' x = Some k \<and> k \<le> m) \<and>
      (\<forall>k. snd (snd st) < k \<and> k \<le> m \<longrightarrow> (\<exists>x \<in> set (take l is). component_of ns' x = Some k)))"
proof (induction adj "is" st rule: label_loop.induct)
  case (1 adj st)
  then show ?case by (cases st) auto
next
  case (2 adj i ids ns visited c)
  note inv = "2.prems"(1) and sub = "2.prems"(2) and symR = "2.prems"(3)
    and fld = "2.prems"(4) and adj = "2.prems"(5) and run = "2.prems"(6)
  from sub have sub': "set ids \<subseteq> nodeIdSet ns0" and iI: "i \<in> nodeIdSet ns0" by simp_all
  from inv have bd: "\<forall>j \<in> visited. \<exists>k. component_of ns j = Some k \<and> 1 \<le> k \<and> k \<le> c"
    by (simp add: lab_inv_def)
  show ?case
  proof (cases "i \<in> visited")
    case True
    with run have l: "label_loop adj ids (ns, visited, c) = Inr (ns', visited', c')" by simp
    from "2.IH"(1)[OF True inv sub' symR fld adj l]
    have A: "\<forall>j \<in> visited. component_of ns' j = component_of ns j"
      and B: "\<forall>l \<le> length ids. \<exists>m. c \<le> m \<and> m \<le> c' \<and>
        (\<forall>x \<in> set (take l ids). \<exists>k. component_of ns' x = Some k \<and> k \<le> m) \<and>
        (\<forall>k. c < k \<and> k \<le> m \<longrightarrow> (\<exists>x \<in> set (take l ids). component_of ns' x = Some k))"
      by simp_all
    from B[rule_format, of 0] have cc': "c \<le> c'" by auto
    from True bd A obtain ki where ki: "component_of ns' i = Some ki" "ki \<le> c" by metis
    have "\<exists>m. c \<le> m \<and> m \<le> c' \<and>
        (\<forall>x \<in> set (take l (i # ids)). \<exists>k. component_of ns' x = Some k \<and> k \<le> m) \<and>
        (\<forall>k. c < k \<and> k \<le> m \<longrightarrow> (\<exists>x \<in> set (take l (i # ids)). component_of ns' x = Some k))"
      if l: "l \<le> length (i # ids)" for l
    proof (cases l)
      case 0
      with cc' show ?thesis by (intro exI[of _ c]) simp
    next
      case (Suc l')
      with l have "l' \<le> length ids" by simp
      from B[rule_format, OF this] obtain m where m: "c \<le> m" "m \<le> c'"
        "\<forall>x \<in> set (take l' ids). \<exists>k. component_of ns' x = Some k \<and> k \<le> m"
        "\<forall>k. c < k \<and> k \<le> m \<longrightarrow> (\<exists>x \<in> set (take l' ids). component_of ns' x = Some k)"
        by blast
      have "\<forall>x \<in> set (take l (i # ids)). \<exists>k. component_of ns' x = Some k \<and> k \<le> m"
        using m(1,3) ki unfolding Suc by auto
      moreover have "\<forall>k. c < k \<and> k \<le> m \<longrightarrow> (\<exists>x \<in> set (take l (i # ids)). component_of ns' x = Some k)"
        using m(4) unfolding Suc by auto
      ultimately show ?thesis using m(1,2) by blast
    qed
    with A show ?thesis by simp
  next
    case False
    from lab_inv_step[OF inv iI False symR fld adj] obtain ns1 v1 where
      d: "dfs_loop adj (c + 1) (ns, insert i visited, [i]) = Inr (ns1, v1)" and
      inv1: "lab_inv R ns0 (ns1, v1, c + 1)" and mono: "insert i visited \<subseteq> v1"
      by blast
    from run False d have l: "label_loop adj ids (ns1, v1, c + 1) = Inr (ns', visited', c')" by simp
    note fr = dfs_step_frame[OF inv iI False symR fld adj d]
    from "2.IH"(2)[OF False d refl inv1 sub' symR fld adj l]
    have A: "\<forall>j \<in> v1. component_of ns' j = component_of ns1 j"
      and B: "\<forall>l \<le> length ids. \<exists>m. c + 1 \<le> m \<and> m \<le> c' \<and>
        (\<forall>x \<in> set (take l ids). \<exists>k. component_of ns' x = Some k \<and> k \<le> m) \<and>
        (\<forall>k. c + 1 < k \<and> k \<le> m \<longrightarrow> (\<exists>x \<in> set (take l ids). component_of ns' x = Some k))"
      by simp_all
    from B[rule_format, of 0] have cc': "c \<le> c'" by auto
    from mono A fr(1) have ci: "component_of ns' i = Some (c + 1)" by auto
    have A': "\<forall>j \<in> visited. component_of ns' j = component_of ns j"
      using mono A fr(2) by auto
    have "\<exists>m. c \<le> m \<and> m \<le> c' \<and>
        (\<forall>x \<in> set (take l (i # ids)). \<exists>k. component_of ns' x = Some k \<and> k \<le> m) \<and>
        (\<forall>k. c < k \<and> k \<le> m \<longrightarrow> (\<exists>x \<in> set (take l (i # ids)). component_of ns' x = Some k))"
      if l: "l \<le> length (i # ids)" for l
    proof (cases l)
      case 0
      with cc' show ?thesis by (intro exI[of _ c]) simp
    next
      case (Suc l')
      with l have "l' \<le> length ids" by simp
      from B[rule_format, OF this] obtain m where m: "c + 1 \<le> m" "m \<le> c'"
        "\<forall>x \<in> set (take l' ids). \<exists>k. component_of ns' x = Some k \<and> k \<le> m"
        "\<forall>k. c + 1 < k \<and> k \<le> m \<longrightarrow> (\<exists>x \<in> set (take l' ids). component_of ns' x = Some k)"
        by blast
      have 1: "\<forall>x \<in> set (take l (i # ids)). \<exists>k. component_of ns' x = Some k \<and> k \<le> m"
        using m(1,3) ci unfolding Suc by auto
      have 2: "\<forall>k. c < k \<and> k \<le> m \<longrightarrow> (\<exists>x \<in> set (take l (i # ids)). component_of ns' x = Some k)"
      proof (intro allI impI)
        fix k assume k: "c < k \<and> k \<le> m"
        show "\<exists>x \<in> set (take l (i # ids)). component_of ns' x = Some k"
        proof (cases "k = c + 1")
          case True
          with ci show ?thesis unfolding Suc by simp
        next
          case False
          with k have "c + 1 < k \<and> k \<le> m" by simp
          with m(4) obtain x where "x \<in> set (take l' ids)" "component_of ns' x = Some k" by blast
          then show ?thesis unfolding Suc by auto
        qed
      qed
      from m(1) have "c \<le> m" by simp
      with 1 2 m(2) show ?thesis by blast
    qed
    with A' show ?thesis by simp
  qed
qed

subsection \<open>The whole callback\<close>

lemma edge_rel_retained:
  "\<forall>e \<in> set es. retained ns e \<Longrightarrow> edge_rel es \<subseteq> nodeIdSet ns \<times> nodeIdSet ns"
  by (auto simp: edge_rel_def retained_def)

lemma component_of_fresh:
  "\<forall>n \<in> set ns. n_component n = None \<Longrightarrow> component_of ns i = None"
  by (induction ns) (auto simp: component_of_def)

lemma label_components_spec:
  assumes ret: "\<forall>e \<in> set es. retained ns e" and fresh: "\<forall>n \<in> set ns. n_component n = None"
  shows "\<exists>ns' c. label_components ns es = Inr (ns', c) \<and>
           lab_inv (edge_rel es) ns (ns', nodeIdSet ns, c)"
proof -
  from build_adj[OF ret] obtain adj where
    b: "adj_edges es (adj_init ns) = Inr adj" and
    adj: "\<forall>k. set (adj_get adj k) = edge_rel es `` {k}" by blast
  have init: "lab_inv (edge_rel es) ns (ns, {}, 0)"
    using component_of_fresh[OF fresh] by (simp add: lab_inv_def)
  have sub: "set (map n_id ns) \<subseteq> nodeIdSet ns" by (simp add: nodeIdSet_def)
  from label_loop_inv[OF init sub edge_rel_sym edge_rel_retained[OF ret] adj]
  obtain ns' visited' c' where
    run: "label_loop adj (map n_id ns) (ns, {}, 0) = Inr (ns', visited', c')" and
    inv: "lab_inv (edge_rel es) ns (ns', visited', c')" and
    all: "set (map n_id ns) \<subseteq> visited'" by auto
  from inv have "visited' \<subseteq> nodeIdSet ns" by (simp add: lab_inv_def)
  with all have "visited' = nodeIdSet ns" by (auto simp: nodeIdSet_def)
  with inv run b show ?thesis by (simp add: label_components_def)
qed

lemma nodesIn_fresh: "\<forall>n \<in> set (nodesIn p). n_component n = None"
  by (auto simp: nodesIn_def normalize_node_def)

lemma edgesIn_retained: "\<forall>e \<in> set (edgesIn p). retained (nodesIn p) e"
  by (simp add: edgesIn_def)

lemma KnowledgeGraph_spec:
  "\<exists>ns c. KnowledgeGraph p = Inr \<lparr> nodes = ns, edges = edgesIn p @ connectors ns \<rparr> \<and>
     lab_inv (edge_rel (edgesIn p)) (nodesIn p) (ns, nodeIdSet (nodesIn p), c)"
proof -
  from label_components_spec[OF edgesIn_retained nodesIn_fresh, of p]
  obtain ns c where "label_components (nodesIn p) (edgesIn p) = Inr (ns, c)"
    "lab_inv (edge_rel (edgesIn p)) (nodesIn p) (ns, nodeIdSet (nodesIn p), c)" by blast
  then show ?thesis by (auto simp: KnowledgeGraph_def)
qed

lemma output_ids:
  assumes "lab_inv R ns0 (ns, V, c)"
  shows "nodeIdSet ns0 = n_id ` set ns" "nodeIdSet ns = n_id ` set ns"
proof -
  from assms have "map n_id ns = map n_id ns0" by (simp add: lab_inv_def)
  then have "set (map n_id ns) = set (map n_id ns0)" by simp
  then show "nodeIdSet ns0 = n_id ` set ns" by (simp add: nodeIdSet_def)
  show "nodeIdSet ns = n_id ` set ns" by (simp add: nodeIdSet_def)
qed

lemma nodesIn_ids: "map n_id (nodesIn p) = map r_id (list_or_empty (graph_nodes p))"
  by (simp add: nodesIn_def normalize_node_def comp_def)

lemma component_of_distinct:
  "distinct (map n_id ns) \<Longrightarrow> n \<in> set ns \<Longrightarrow> component_of ns (n_id n) = n_component n"
  by (induction ns) (auto simp: component_of_def)

lemma labelled_graph:
  assumes "unique_ids p"
  shows "\<exists>g k. KnowledgeGraph p = Inr g \<and> label_components (nodesIn p) (edgesIn p) = Inr (nodes g, k) \<and>
     map n_id (nodes g) = map n_id (nodesIn p) \<and>
     edges g = edgesIn p @ connectors (nodes g) \<and>
     (\<forall>n \<in> set (nodes g). \<exists>c. n_component n = Some c \<and> 1 \<le> c \<and> c \<le> k) \<and>
     (\<forall>c. 1 \<le> c \<and> c \<le> k \<longrightarrow> (\<exists>n \<in> set (nodes g). n_component n = Some c)) \<and>
     (\<forall>n \<in> set (nodes g). \<forall>m \<in> set (nodes g).
        n_component n = n_component m \<longleftrightarrow> joined (edgesIn p) (n_id n) (n_id m))"
proof -
  let ?R = "edge_rel (edgesIn p)" and ?I = "nodeIdSet (nodesIn p)"
  from label_components_spec[OF edgesIn_retained nodesIn_fresh, of p]
  obtain ns k where run: "label_components (nodesIn p) (edgesIn p) = Inr (ns, k)"
    and inv: "lab_inv ?R (nodesIn p) (ns, ?I, k)" by blast
  from inv have ids: "map n_id ns = map n_id (nodesIn p)"
    and bd: "\<forall>i \<in> ?I. \<exists>c. component_of ns i = Some c \<and> 1 \<le> c \<and> c \<le> k"
    and eq: "\<forall>i \<in> ?I. \<forall>j \<in> ?I. component_of ns i = component_of ns j \<longleftrightarrow> (i, j) \<in> ?R\<^sup>*"
    and us: "\<forall>c. 1 \<le> c \<and> c \<le> k \<longrightarrow> (\<exists>i \<in> ?I. component_of ns i = Some c)"
    by (simp_all add: lab_inv_def)
  from assms ids have dist: "distinct (map n_id ns)"
    by (simp add: unique_ids_def nodesIn_ids)
  have co: "component_of ns (n_id n) = n_component n" if "n \<in> set ns" for n
    using component_of_distinct[OF dist that] .
  have inI: "n_id n \<in> ?I" if "n \<in> set ns" for n
  proof -
    from that have "n_id n \<in> set (map n_id ns)" by simp
    with ids show ?thesis by (simp add: nodeIdSet_def)
  qed
  have 1: "\<forall>n \<in> set ns. \<exists>c. n_component n = Some c \<and> 1 \<le> c \<and> c \<le> k"
    using bd inI co by metis
  have 2: "\<forall>c. 1 \<le> c \<and> c \<le> k \<longrightarrow> (\<exists>n \<in> set ns. n_component n = Some c)"
  proof (intro allI impI)
    fix c assume "1 \<le> c \<and> c \<le> k"
    with us obtain i where i: "i \<in> ?I" "component_of ns i = Some c" by blast
    from i(1) ids have "i \<in> set (map n_id ns)" by (simp add: nodeIdSet_def)
    then obtain n where "n \<in> set ns" "n_id n = i" by auto
    with i(2) co show "\<exists>n \<in> set ns. n_component n = Some c" by auto
  qed
  have 3: "\<forall>n \<in> set ns. \<forall>m \<in> set ns.
        n_component n = n_component m \<longleftrightarrow> joined (edgesIn p) (n_id n) (n_id m)"
    using eq inI co unfolding joined_def by metis
  from run have "KnowledgeGraph p = Inr \<lparr> nodes = ns, edges = edgesIn p @ connectors ns \<rparr>"
    by (simp add: KnowledgeGraph_def)
  with run ids 1 2 3 show ?thesis by simp
qed

text \<open>The labelling assigns \<open>component\<close> and nothing else.\<close>

lemma set_component_frame:
  "set_component i c ns = Some ns' \<Longrightarrow> map unlabelled ns' = map unlabelled ns"
  by (induction ns arbitrary: ns') (auto simp: unlabelled_def split: if_splits)

lemma dfs_loop_frame:
  "dfs_loop adj c st = Inr (ns', visited') \<Longrightarrow> map unlabelled ns' = map unlabelled (fst st)"
proof (induction adj c st rule: dfs_loop.induct)
  case (1 adj c ns visited)
  then show ?case by simp
next
  case (2 adj c ns visited cur stack)
  show ?case
  proof (cases "set_component cur c ns")
    case None
    with "2.prems" show ?thesis by simp
  next
    case (Some ns1)
    with "2.prems" have "dfs_loop adj c (ns1, push_unvisited (adj_get adj cur) (visited, stack)) = Inr (ns', visited')"
      by simp
    from "2.IH"[OF Some this] set_component_frame[OF Some] show ?thesis by simp
  qed
qed

lemma label_loop_frame:
  "label_loop adj ids st = Inr (ns', visited', c') \<Longrightarrow> map unlabelled ns' = map unlabelled (fst st)"
proof (induction adj ids st rule: label_loop.induct)
  case (1 adj st)
  then show ?case by auto
next
  case (2 adj i ids ns visited c)
  show ?case
  proof (cases "i \<in> visited")
    case True
    with "2.prems" "2.IH"(1) show ?thesis by simp
  next
    case False
    with "2.prems" obtain ns1 v1 where
      d: "dfs_loop adj (c + 1) (ns, insert i visited, [i]) = Inr (ns1, v1)" and
      l: "label_loop adj ids (ns1, v1, c + 1) = Inr (ns', visited', c')"
      by (auto split: sum.splits)
    from "2.IH"(2)[OF False d refl l] dfs_loop_frame[OF d] show ?thesis by simp
  qed
qed

lemma KnowledgeGraph_frame:
  assumes "KnowledgeGraph p = Inr g"
  shows "map unlabelled (nodes g) = nodesIn p"
proof -
  from assms obtain adj visited c where
    "label_loop adj (map n_id (nodesIn p)) (nodesIn p, {}, 0) = Inr (nodes g, visited, c)"
    by (auto simp: KnowledgeGraph_def label_components_def split: sum.splits)
  from label_loop_frame[OF this] have "map unlabelled (nodes g) = map unlabelled (nodesIn p)"
    by simp
  also have "\<dots> = nodesIn p"
    by (simp add: nodesIn_def unlabelled_def normalize_node_def comp_def)
  finally show ?thesis .
qed

lemma label_components_order:
  assumes ret: "\<forall>e \<in> set es. retained ns e" and fresh: "\<forall>n \<in> set ns. n_component n = None"
  shows "\<exists>ns' c. label_components ns es = Inr (ns', c) \<and>
           lab_inv (edge_rel es) ns (ns', nodeIdSet ns, c) \<and>
           (\<forall>l \<le> length ns. \<exists>m.
              (\<forall>x \<in> set (take l (map n_id ns)). \<exists>k. component_of ns' x = Some k \<and> k \<le> m) \<and>
              (\<forall>k. 0 < k \<and> k \<le> m \<longrightarrow> (\<exists>x \<in> set (take l (map n_id ns)). component_of ns' x = Some k)))"
proof -
  from build_adj[OF ret] obtain adj where
    b: "adj_edges es (adj_init ns) = Inr adj" and
    adj: "\<forall>k. set (adj_get adj k) = edge_rel es `` {k}" by blast
  have init: "lab_inv (edge_rel es) ns (ns, {}, 0)"
    using component_of_fresh[OF fresh] by (simp add: lab_inv_def)
  have sub: "set (map n_id ns) \<subseteq> nodeIdSet ns" by (simp add: nodeIdSet_def)
  from label_loop_inv[OF init sub edge_rel_sym edge_rel_retained[OF ret] adj]
  obtain ns' visited' c' where
    run: "label_loop adj (map n_id ns) (ns, {}, 0) = Inr (ns', visited', c')" and
    inv: "lab_inv (edge_rel es) ns (ns', visited', c')" and
    all: "set (map n_id ns) \<subseteq> visited'" by auto
  from inv have "visited' \<subseteq> nodeIdSet ns" by (simp add: lab_inv_def)
  with all have v: "visited' = nodeIdSet ns" by (auto simp: nodeIdSet_def)
  from label_loop_order[OF init sub edge_rel_sym edge_rel_retained[OF ret] adj run]
  have ord: "\<forall>l \<le> length (map n_id ns). \<exists>m. 0 \<le> m \<and> m \<le> c' \<and>
      (\<forall>x \<in> set (take l (map n_id ns)). \<exists>k. component_of ns' x = Some k \<and> k \<le> m) \<and>
      (\<forall>k. 0 < k \<and> k \<le> m \<longrightarrow> (\<exists>x \<in> set (take l (map n_id ns)). component_of ns' x = Some k))"
    by simp
  have "\<exists>m. (\<forall>x \<in> set (take l (map n_id ns)). \<exists>k. component_of ns' x = Some k \<and> k \<le> m) \<and>
      (\<forall>k. 0 < k \<and> k \<le> m \<longrightarrow> (\<exists>x \<in> set (take l (map n_id ns)). component_of ns' x = Some k))"
    if "l \<le> length ns" for l
  proof -
    from that have "l \<le> length (map n_id ns)" by simp
    from ord[rule_format, OF this] show ?thesis by blast
  qed
  with inv run b v show ?thesis by (simp add: label_components_def)
qed

lemma prefix_components:
  assumes uniq: "unique_ids p"
  shows "\<exists>g. KnowledgeGraph p = Inr g \<and>
     (\<forall>l \<le> length (nodes g). \<exists>m. {c. \<exists>n \<in> set (take l (nodes g)). n_component n = Some c} = {1..m})"
proof -
  let ?R = "edge_rel (edgesIn p)" and ?I = "nodeIdSet (nodesIn p)"
  from label_components_order[OF edgesIn_retained nodesIn_fresh, of p]
  obtain ns k where run: "label_components (nodesIn p) (edgesIn p) = Inr (ns, k)"
    and inv: "lab_inv ?R (nodesIn p) (ns, ?I, k)"
    and ord: "\<forall>l \<le> length (nodesIn p). \<exists>m.
              (\<forall>x \<in> set (take l (map n_id (nodesIn p))). \<exists>k. component_of ns x = Some k \<and> k \<le> m) \<and>
              (\<forall>k. 0 < k \<and> k \<le> m \<longrightarrow> (\<exists>x \<in> set (take l (map n_id (nodesIn p))). component_of ns x = Some k))"
    by blast
  from inv have ids: "map n_id ns = map n_id (nodesIn p)"
    and bd: "\<forall>i \<in> ?I. \<exists>c. component_of ns i = Some c \<and> 1 \<le> c \<and> c \<le> k"
    by (simp_all add: lab_inv_def)
  from ids have len: "length ns = length (nodesIn p)" by (rule map_eq_imp_length_eq)
  from uniq ids have dist: "distinct (map n_id ns)"
    by (simp add: unique_ids_def nodesIn_ids)
  have co: "component_of ns (n_id n) = n_component n" if "n \<in> set ns" for n
    using component_of_distinct[OF dist that] .
  have pos: "1 \<le> c" if "n \<in> set ns" "n_component n = Some c" for n c
  proof -
    from that(1) have "n_id n \<in> set (map n_id ns)" by simp
    then have "n_id n \<in> ?I" unfolding ids by (simp add: nodeIdSet_def)
    with bd co[OF that(1)] that(2) show ?thesis by fastforce
  qed
  have "\<exists>m. {c. \<exists>n \<in> set (take l ns). n_component n = Some c} = {1..m}" if l: "l \<le> length ns" for l
  proof -
    from l len have "l \<le> length (nodesIn p)" by simp
    from ord[folded ids, rule_format, OF this] obtain m where all:
      "(\<forall>x \<in> set (take l (map n_id ns)). \<exists>k. component_of ns x = Some k \<and> k \<le> m) \<and>
       (\<forall>k. 0 < k \<and> k \<le> m \<longrightarrow> (\<exists>x \<in> set (take l (map n_id ns)). component_of ns x = Some k))"
      by (elim exE)
    note up = all[THEN conjunct1] and cov = all[THEN conjunct2]
    have tk: "set (take l (map n_id ns)) = n_id ` set (take l ns)"
      by (simp add: take_map)
    have sub: "set (take l ns) \<subseteq> set ns" by (rule set_take_subset)
    have "{c. \<exists>n \<in> set (take l ns). n_component n = Some c} = {1..m}"
    proof (intro set_eqI iffI)
      fix c assume "c \<in> {c. \<exists>n \<in> set (take l ns). n_component n = Some c}"
      then obtain n where n: "n \<in> set (take l ns)" "n_component n = Some c" by blast
      with sub have ns: "n \<in> set ns" by blast
      from n(1) have "n_id n \<in> set (take l (map n_id ns))" unfolding tk by simp
      with up obtain k' where "component_of ns (n_id n) = Some k'" "k' \<le> m" by blast
      with co[OF ns] n(2) have "c \<le> m" by simp
      with pos[OF ns n(2)] show "c \<in> {1..m}" by simp
    next
      fix c assume "c \<in> {1..m}"
      then have "0 < c \<and> c \<le> m" by simp
      with cov obtain x where "x \<in> set (take l (map n_id ns))" "component_of ns x = Some c" by blast
      then obtain n where n: "n \<in> set (take l ns)" "x = n_id n" unfolding tk by blast
      with sub have "n \<in> set ns" by blast
      from co[OF this] n(2) \<open>component_of ns x = Some c\<close> have "n_component n = Some c" by simp
      with n(1) show "c \<in> {c. \<exists>n \<in> set (take l ns). n_component n = Some c}" by blast
    qed
    then show ?thesis by blast
  qed
  moreover from run have "KnowledgeGraph p = Inr \<lparr> nodes = ns, edges = edgesIn p @ connectors ns \<rparr>"
    by (simp add: KnowledgeGraph_def)
  ultimately show ?thesis by simp
qed

lemma next_value:
  assumes pre: "{c. \<exists>n \<in> set (take i ns). n_component n = Some c} = {1..m}"
    and nxt: "{c. \<exists>n \<in> set (take (Suc i) ns). n_component n = Some c} = {1..m'}"
    and i: "i < length ns" and ci: "n_component (ns ! i) = Some c"
    and new: "\<forall>j < i. n_component (ns ! j) \<noteq> Some c"
  shows "c = Suc (card {c. \<exists>j < i. n_component (ns ! j) = Some c})"
proof -
  have idx: "{c. \<exists>j < i. n_component (ns ! j) = Some c} = {c. \<exists>n \<in> set (take i ns). n_component n = Some c}"
  proof (intro set_eqI iffI)
    fix c assume "c \<in> {c. \<exists>j < i. n_component (ns ! j) = Some c}"
    then obtain j where j: "j < i" "n_component (ns ! j) = Some c" by blast
    with i have "j < length (take i ns)" by simp
    then have "take i ns ! j \<in> set (take i ns)" by (rule nth_mem)
    with j(1) have "ns ! j \<in> set (take i ns)" by simp
    with j(2) show "c \<in> {c. \<exists>n \<in> set (take i ns). n_component n = Some c}" by blast
  next
    fix c assume "c \<in> {c. \<exists>n \<in> set (take i ns). n_component n = Some c}"
    then obtain n where n: "n \<in> set (take i ns)" "n_component n = Some c" by blast
    then obtain j where "j < length (take i ns)" "take i ns ! j = n"
      by (auto simp: in_set_conv_nth)
    then have "j < i" "ns ! j = n" by simp_all
    with n(2) show "c \<in> {c. \<exists>j < i. n_component (ns ! j) = Some c}" by blast
  qed
  from new have notin: "c \<notin> {1..m}" unfolding pre[symmetric] idx[symmetric] by blast
  from i have "take (Suc i) ns = take i ns @ [ns ! i]" by (rule take_Suc_conv_app_nth)
  then have "{c. \<exists>n \<in> set (take (Suc i) ns). n_component n = Some c}
      = insert c {c. \<exists>n \<in> set (take i ns). n_component n = Some c}"
    using ci by auto
  with pre nxt have eq: "{1..m'} = insert c {1..m}" by simp
  then have "c \<in> {1..m'}" by blast
  from eq notin have "card {1..m'} = Suc (card {1..m})" by simp
  then have "m' = Suc m" by simp
  with \<open>c \<in> {1..m'}\<close> notin have "c = Suc m" by auto
  then show ?thesis unfolding idx pre by simp
qed

text \<open>Only the first node with an id is ever assigned a component.\<close>

lemma set_component_other:
  "set_component x c ns = Some ns' \<Longrightarrow> idx < length ns \<Longrightarrow> n_id (ns ! idx) \<noteq> x \<Longrightarrow>
   ns' ! idx = ns ! idx"
proof (induction ns arbitrary: ns' idx)
  case Nil
  then show ?case by simp
next
  case (Cons a ns)
  show ?case
  proof (cases "n_id a = x")
    case True
    with Cons.prems show ?thesis by (cases idx) auto
  next
    case False
    with Cons.prems(1) obtain ys where ys: "set_component x c ns = Some ys" "ns' = a # ys" by auto
    show ?thesis
    proof (cases idx)
      case 0
      with ys show ?thesis by simp
    next
      case (Suc i)
      with Cons.prems have "i < length ns" "n_id (ns ! i) \<noteq> x" by simp_all
      from Cons.IH[OF ys(1) this] ys(2) Suc show ?thesis by simp
    qed
  qed
qed

lemma set_component_later:
  "set_component x c ns = Some ns' \<Longrightarrow> idx < length ns \<Longrightarrow> j < idx \<Longrightarrow>
   n_id (ns ! j) = n_id (ns ! idx) \<Longrightarrow> ns' ! idx = ns ! idx"
proof (induction ns arbitrary: ns' idx j)
  case Nil
  then show ?case by simp
next
  case (Cons a ns)
  from Cons.prems(3) obtain i where idx: "idx = Suc i" by (cases idx) auto
  show ?case
  proof (cases "n_id a = x")
    case True
    with Cons.prems(1) idx show ?thesis by auto
  next
    case False
    with Cons.prems(1) obtain ys where ys: "set_component x c ns = Some ys" "ns' = a # ys" by auto
    from Cons.prems(2) idx have i: "i < length ns" by simp
    show ?thesis
    proof (cases j)
      case 0
      with Cons.prems(4) idx False have "n_id (ns ! i) \<noteq> x" by simp
      from set_component_other[OF ys(1) i this] ys(2) idx show ?thesis by simp
    next
      case (Suc j')
      with Cons.prems(3,4) idx have "j' < i" "n_id (ns ! j') = n_id (ns ! i)" by simp_all
      from Cons.IH[OF ys(1) i this] ys(2) idx show ?thesis by simp
    qed
  qed
qed

lemma dfs_loop_later:
  "dfs_loop adj c st = Inr (ns', visited') \<Longrightarrow> idx < length (fst st) \<Longrightarrow> j < idx \<Longrightarrow>
   n_id (fst st ! j) = n_id (fst st ! idx) \<Longrightarrow> ns' ! idx = fst st ! idx"
proof (induction adj c st rule: dfs_loop.induct)
  case (1 adj c ns visited)
  then show ?case by simp
next
  case (2 adj c ns visited cur stack)
  show ?case
  proof (cases "set_component cur c ns")
    case None
    with "2.prems" show ?thesis by simp
  next
    case (Some ns1)
    with "2.prems"(1) have run: "dfs_loop adj c (ns1, push_unvisited (adj_get adj cur) (visited, stack)) = Inr (ns', visited')"
      by simp
    from set_component_ids[OF Some] have ids: "map n_id ns1 = map n_id ns" .
    then have len: "length ns1 = length ns" by (rule map_eq_imp_length_eq)
    from "2.prems"(2,3) have lt: "idx < length ns" "j < length ns" by simp_all
    from ids lt have same: "n_id (ns1 ! idx) = n_id (ns ! idx)" "n_id (ns1 ! j) = n_id (ns ! j)"
      by (metis nth_map len)+
    from "2.prems"(4) same have eq1: "n_id (ns1 ! j) = n_id (ns1 ! idx)" by simp
    from "2.IH"[OF Some run] lt(1) len "2.prems"(3) eq1 have "ns' ! idx = ns1 ! idx" by simp
    moreover from set_component_later[OF Some lt(1) "2.prems"(3)] "2.prems"(4)
    have "ns1 ! idx = ns ! idx" by simp
    ultimately show ?thesis by simp
  qed
qed

lemma dfs_loop_ids:
  "dfs_loop adj c st = Inr (ns', visited') \<Longrightarrow> map n_id ns' = map n_id (fst st)"
proof -
  assume "dfs_loop adj c st = Inr (ns', visited')"
  from dfs_loop_frame[OF this] have "map n_id (map unlabelled ns') = map n_id (map unlabelled (fst st))"
    by simp
  then show ?thesis by (simp add: comp_def unlabelled_def)
qed

lemma label_loop_later:
  "label_loop adj ids st = Inr (ns', visited', c') \<Longrightarrow> idx < length (fst st) \<Longrightarrow> j < idx \<Longrightarrow>
   n_id (fst st ! j) = n_id (fst st ! idx) \<Longrightarrow> ns' ! idx = fst st ! idx"
proof (induction adj ids st rule: label_loop.induct)
  case (1 adj st)
  then show ?case by auto
next
  case (2 adj i ids ns visited c)
  show ?case
  proof (cases "i \<in> visited")
    case True
    with "2.prems" "2.IH"(1) show ?thesis by simp
  next
    case False
    with "2.prems"(1) obtain ns1 v1 where
      d: "dfs_loop adj (c + 1) (ns, insert i visited, [i]) = Inr (ns1, v1)" and
      l: "label_loop adj ids (ns1, v1, c + 1) = Inr (ns', visited', c')"
      by (auto split: sum.splits)
    from dfs_loop_ids[OF d] have ids: "map n_id ns1 = map n_id ns" by simp
    then have len: "length ns1 = length ns" by (rule map_eq_imp_length_eq)
    from "2.prems"(2,3) have lt: "idx < length ns" "j < length ns" by simp_all
    from ids lt have same: "n_id (ns1 ! idx) = n_id (ns ! idx)" "n_id (ns1 ! j) = n_id (ns ! j)"
      by (metis nth_map len)+
    from "2.prems"(4) same have eq1: "n_id (ns1 ! j) = n_id (ns1 ! idx)" by simp
    from "2.IH"(2)[OF False d refl l] lt(1) len "2.prems"(3) eq1 have "ns' ! idx = ns1 ! idx" by simp
    moreover from dfs_loop_later[OF d] lt(1) "2.prems"(3,4) have "ns1 ! idx = ns ! idx" by simp
    ultimately show ?thesis by simp
  qed
qed

lemma KnowledgeGraph_later:
  assumes run: "KnowledgeGraph p = Inr g"
    and idx: "idx < length (list_or_empty (graph_nodes p))" and j: "j < idx"
    and same: "r_id (list_or_empty (graph_nodes p) ! j) = r_id (list_or_empty (graph_nodes p) ! idx)"
  shows "n_component (nodes g ! idx) = None"
proof -
  from run obtain adj visited c where
    l: "label_loop adj (map n_id (nodesIn p)) (nodesIn p, {}, 0) = Inr (nodes g, visited, c)"
    by (auto simp: KnowledgeGraph_def label_components_def split: sum.splits)
  from idx have lt: "idx < length (nodesIn p)" by (simp add: nodesIn_def)
  with j have ltj: "j < length (nodesIn p)" by simp
  have "n_id (nodesIn p ! j) = n_id (nodesIn p ! idx)"
    using same lt ltj by (simp add: nodesIn_def normalize_node_def)
  from label_loop_later[OF l _ j] lt this have "nodes g ! idx = nodesIn p ! idx" by simp
  with lt nodesIn_fresh[of p] show ?thesis by simp
qed

lemma component_of_first:
  assumes "i < length ns" and "\<forall>j < i. n_id (ns ! j) \<noteq> n_id (ns ! i)"
  shows "component_of ns (n_id (ns ! i)) = n_component (ns ! i)"
proof -
  from assms have "find (\<lambda>n. n_id n = n_id (ns ! i)) ns = Some (ns ! i)"
    unfolding find_Some_iff by blast
  then show ?thesis by (simp add: component_of_def)
qed

lemma KnowledgeGraph_first:
  assumes idx: "idx < length (list_or_empty (graph_nodes p))"
    and first: "\<forall>j < idx. r_id (list_or_empty (graph_nodes p) ! j) \<noteq> r_id (list_or_empty (graph_nodes p) ! idx)"
  shows "\<exists>g c. KnowledgeGraph p = Inr g \<and> n_component (nodes g ! idx) = Some c"
proof -
  from KnowledgeGraph_spec[of p] obtain ns c where
    g: "KnowledgeGraph p = Inr \<lparr> nodes = ns, edges = edgesIn p @ connectors ns \<rparr>" and
    inv: "lab_inv (edge_rel (edgesIn p)) (nodesIn p) (ns, nodeIdSet (nodesIn p), c)" by blast
  from inv have ids: "map n_id ns = map n_id (nodesIn p)"
    and bd: "\<forall>i \<in> nodeIdSet (nodesIn p). \<exists>k. component_of ns i = Some k \<and> 1 \<le> k \<and> k \<le> c"
    by (simp_all add: lab_inv_def)
  from ids have ids': "map n_id ns = map r_id (list_or_empty (graph_nodes p))"
    by (simp add: nodesIn_ids)
  then have len: "length ns = length (list_or_empty (graph_nodes p))" by (rule map_eq_imp_length_eq)
  have nth: "n_id (ns ! i) = r_id (list_or_empty (graph_nodes p) ! i)"
    if "i < length (list_or_empty (graph_nodes p))" for i
    using that len ids' by (metis nth_map)
  from idx len have lt: "idx < length ns" by simp
  have "\<forall>j < idx. n_id (ns ! j) \<noteq> n_id (ns ! idx)"
  proof (intro allI impI)
    fix j assume j: "j < idx"
    with idx have "j < length (list_or_empty (graph_nodes p))" by simp
    from nth[OF this] nth[OF idx] first j show "n_id (ns ! j) \<noteq> n_id (ns ! idx)" by simp
  qed
  from component_of_first[OF lt this] have co: "component_of ns (n_id (ns ! idx)) = n_component (ns ! idx)" .
  from lt have "n_id (ns ! idx) \<in> set (map n_id ns)" by simp
  then have "n_id (ns ! idx) \<in> nodeIdSet (nodesIn p)" unfolding ids by (simp add: nodeIdSet_def)
  with bd co obtain k where "n_component (ns ! idx) = Some k" by fastforce
  with g show ?thesis by simp
qed

subsection \<open>The connectors\<close>

lemma representativeByComp_id:
  "representativeByComp ns cs c = Some v \<Longrightarrow> v \<in> nodeIdSet ns"
proof -
  have "fold (\<lambda>c m. case find (\<lambda>n. comp_or0 n = c) ns of None \<Rightarrow> m | Some rep \<Rightarrow> m(c \<mapsto> n_id rep)) cs m c = Some v
          \<Longrightarrow> m c = Some v \<or> v \<in> nodeIdSet ns" for m :: "nat \<rightharpoonup> jsid"
  proof (induction cs arbitrary: m)
    case Nil
    then show ?case by simp
  next
    case (Cons a cs)
    show ?case
    proof (cases "find (\<lambda>n. comp_or0 n = a) ns")
      case None
      with Cons show ?thesis by simp
    next
      case (Some rep)
      then have "rep \<in> set ns" by (auto simp: find_Some_iff)
      then have "n_id rep \<in> nodeIdSet ns" by (simp add: nodeIdSet_def)
      moreover from Cons.prems Some
      have "fold (\<lambda>c m. case find (\<lambda>n. comp_or0 n = c) ns of None \<Rightarrow> m | Some rep \<Rightarrow> m(c \<mapsto> n_id rep))
              cs (m(a \<mapsto> n_id rep)) c = Some v"
        by simp
      from Cons.IH[OF this] have "(m(a \<mapsto> n_id rep)) c = Some v \<or> v \<in> nodeIdSet ns" .
      ultimately show ?thesis by (auto split: if_splits)
    qed
  qed
  from this[of Map.empty] show "representativeByComp ns cs c = Some v \<Longrightarrow> v \<in> nodeIdSet ns"
    by (simp add: representativeByComp_def)
qed

lemma truthy_rep_get:
  assumes "truthy (rep_get (representativeByComp ns cs) c)"
  shows "rep_get (representativeByComp ns cs) c \<in> nodeIdSet ns"
proof (cases "representativeByComp ns cs c")
  case None
  with assms show ?thesis by (simp add: rep_get_def truthy_def)
next
  case (Some v)
  from representativeByComp_id[OF this] Some show ?thesis by (simp add: rep_get_def)
qed

lemma in_syntheticEdges:
  assumes "e \<in> set (syntheticEdges m cs)"
  shows "\<exists>i. i + 1 < length cs \<and> truthy (rep_get m (cs ! i)) \<and> truthy (rep_get m (cs ! (i + 1))) \<and>
             e = connector (rep_get m (cs ! i)) (rep_get m (cs ! (i + 1)))"
proof -
  from assms obtain i where i: "i < length cs - 1"
    and e: "e \<in> set (let a = rep_get m (cs ! i); b = rep_get m (cs ! (i + 1))
                      in if truthy a \<and> truthy b then [connector a b] else [])"
    unfolding syntheticEdges_def by auto
  from e have "truthy (rep_get m (cs ! i)) \<and> truthy (rep_get m (cs ! (i + 1))) \<and>
             e = connector (rep_get m (cs ! i)) (rep_get m (cs ! (i + 1)))"
    by (simp add: Let_def split: if_splits)
  with i show ?thesis by (intro exI[of _ i]) simp
qed

lemma connectors_endpoints:
  assumes "e \<in> set (connectors ns)"
  shows "source e \<in> nodeIdSet ns \<and> target e \<in> nodeIdSet ns \<and> weight e = Some (1 / 10)"
proof -
  from assms have "e \<in> set (syntheticEdges (representativeByComp ns (comps ns)) (comps ns))"
    by (simp add: connectors_def)
  from in_syntheticEdges[OF this] obtain i where
    "truthy (rep_get (representativeByComp ns (comps ns)) (comps ns ! i))"
    "truthy (rep_get (representativeByComp ns (comps ns)) (comps ns ! (i + 1)))"
    "e = connector (rep_get (representativeByComp ns (comps ns)) (comps ns ! i))
                   (rep_get (representativeByComp ns (comps ns)) (comps ns ! (i + 1)))"
    by blast
  then show ?thesis
    by (simp add: connector_def truthy_rep_get)
qed

subsection \<open>The chain of connectors when every id is truthy\<close>

lemma set_uniq: "set (uniq xs) = set xs"
  by (induction xs) auto

lemma distinct_uniq: "distinct (uniq xs)"
  by (induction xs) (auto simp: set_uniq)

lemma comps_sorted_distinct: "sorted (comps ns) \<and> distinct (comps ns) \<and> set (comps ns) = comp_or0 ` set ns"
  by (simp add: comps_def set_uniq distinct_uniq)

lemma representativeByComp_lookup:
  "representativeByComp ns cs c =
     (if c \<in> set cs then map_option n_id (find (\<lambda>n. comp_or0 n = c) ns) else None)"
proof -
  have "fold (\<lambda>c m. case find (\<lambda>n. comp_or0 n = c) ns of None \<Rightarrow> m | Some rep \<Rightarrow> m(c \<mapsto> n_id rep)) cs m c =
          (if c \<in> set cs \<and> find (\<lambda>n. comp_or0 n = c) ns \<noteq> None
           then map_option n_id (find (\<lambda>n. comp_or0 n = c) ns) else m c)" for m :: "nat \<rightharpoonup> jsid"
  proof (induction cs arbitrary: m)
    case Nil
    then show ?case by simp
  next
    case (Cons a cs)
    show ?case
      by (cases "find (\<lambda>n. comp_or0 n = a) ns") (auto simp: Cons.IH)
  qed
  from this[of Map.empty] show ?thesis
    by (auto simp: representativeByComp_def)
qed

lemma find_comp:
  assumes "c \<in> comp_or0 ` set ns"
  shows "\<exists>rep. find (\<lambda>n. comp_or0 n = c) ns = Some rep \<and> rep \<in> set ns \<and> comp_or0 rep = c"
proof (cases "find (\<lambda>n. comp_or0 n = c) ns")
  case None
  with assms show ?thesis by (auto simp: find_None_iff)
next
  case (Some rep)
  then show ?thesis by (auto simp: find_Some_iff)
qed

lemma rep_get_representative:
  "c \<in> set cs \<Longrightarrow> rep_get (representativeByComp ns cs) c = representative ns c"
  by (simp add: rep_get_def representativeByComp_lookup representative_def split: option.splits)

lemma representative_truthy:
  assumes "\<forall>n \<in> set ns. truthy (n_id n)" and "c \<in> comp_or0 ` set ns"
  shows "truthy (representative ns c)"
proof -
  from find_comp[OF assms(2)] obtain rep where
    "find (\<lambda>n. comp_or0 n = c) ns = Some rep" "rep \<in> set ns" by blast
  with assms(1) show ?thesis by (simp add: representative_def)
qed

lemma connectors_chain:
  assumes "\<forall>n \<in> set ns. truthy (n_id n)"
  shows "connectors ns =
     map (\<lambda>i. connector (representative ns (comps ns ! i)) (representative ns (comps ns ! (i + 1))))
         [0 ..< length (comps ns) - 1]"
proof -
  let ?cs = "comps ns" and ?m = "representativeByComp ns (comps ns)"
  have step: "(let a = rep_get ?m (?cs ! i); b = rep_get ?m (?cs ! (i + 1))
               in if truthy a \<and> truthy b then [connector a b] else []) =
              [connector (representative ns (?cs ! i)) (representative ns (?cs ! (i + 1)))]"
    if "i \<in> set [0 ..< length ?cs - 1]" for i
  proof -
    from that have i: "i < length ?cs" "i + 1 < length ?cs" by auto
    then have mem: "?cs ! i \<in> set ?cs" "?cs ! (i + 1) \<in> set ?cs" by simp_all
    then have "?cs ! i \<in> comp_or0 ` set ns" "?cs ! (i + 1) \<in> comp_or0 ` set ns"
      using comps_sorted_distinct[of ns] by auto
    from representative_truthy[OF assms this(1)] representative_truthy[OF assms this(2)]
    show ?thesis
      unfolding Let_def rep_get_representative[OF mem(1)] rep_get_representative[OF mem(2)]
      by simp
  qed
  have "concat (map (\<lambda>i. let a = rep_get ?m (?cs ! i); b = rep_get ?m (?cs ! (i + 1))
                      in if truthy a \<and> truthy b then [connector a b] else []) [0 ..< length ?cs - 1])
        = concat (map (\<lambda>i. [connector (representative ns (?cs ! i)) (representative ns (?cs ! (i + 1)))])
                   [0 ..< length ?cs - 1])"
    using step by (intro arg_cong[where f = concat] map_cong refl) blast
  also have "\<dots> = map (\<lambda>i. connector (representative ns (?cs ! i)) (representative ns (?cs ! (i + 1))))
                   [0 ..< length ?cs - 1]"
    by (induction "[0 ..< length ?cs - 1]") (simp_all add: concat_map_singleton)
  finally show ?thesis by (simp add: connectors_def syntheticEdges_def)
qed

lemma joined_mono: "set es \<subseteq> set es' \<Longrightarrow> joined es u v \<Longrightarrow> joined es' u v"
proof -
  assume "set es \<subseteq> set es'"
  then have "edge_rel es \<subseteq> edge_rel es'" by (auto simp: edge_rel_def)
  from rtrancl_mono[OF this] show "joined es u v \<Longrightarrow> joined es' u v"
    by (auto simp: joined_def)
qed

lemma joined_sym: "joined es u v \<Longrightarrow> joined es v u"
  unfolding joined_def by (rule sym_rtrancl_rev[OF edge_rel_sym])

lemma joined_trans: "joined es u v \<Longrightarrow> joined es v w \<Longrightarrow> joined es u w"
  unfolding joined_def by (rule rtrancl_trans)

lemma joined_edge: "e \<in> set es \<Longrightarrow> joined es (source e) (target e)"
  by (auto simp: joined_def edge_rel_def)

text \<open>With truthy ids the connectors are one fewer than the distinct component values,
  and the \<open>i\<close>-th joins the representatives of the \<open>i\<close>-th and the next value in ascending
  order.\<close>

lemma synthetic_edges_chain:
  assumes "\<forall>n \<in> set ns. truthy (n_id n)"
  shows "length (connectors ns) = card (comp_or0 ` set ns) - 1 \<and>
     (\<forall>i < length (connectors ns).
        connectors ns ! i =
          connector (representative ns (comps ns ! i)) (representative ns (comps ns ! (i + 1))))"
proof -
  from comps_sorted_distinct[of ns] have "card (comp_or0 ` set ns) = length (comps ns)"
    by (metis distinct_card)
  then show ?thesis
    by (simp add: connectors_chain[OF assms])
qed

lemma comps_labelled:
  assumes bd: "\<forall>n \<in> set ns. \<exists>c. n_component n = Some c \<and> 1 \<le> c \<and> c \<le> k"
    and us: "\<forall>c. 1 \<le> c \<and> c \<le> k \<longrightarrow> (\<exists>n \<in> set ns. n_component n = Some c)"
  shows "comps ns = [1 ..< Suc k]"
proof -
  have "comp_or0 ` set ns = {1..k}"
  proof (intro set_eqI iffI)
    fix c assume "c \<in> comp_or0 ` set ns"
    then obtain n where "n \<in> set ns" "c = comp_or0 n" by blast
    with bd show "c \<in> {1..k}" by (fastforce simp: comp_or0_def)
  next
    fix c assume "c \<in> {1..k}"
    with us obtain n where "n \<in> set ns" "n_component n = Some c" by auto
    then show "c \<in> comp_or0 ` set ns" by (force simp: comp_or0_def)
  qed
  then have "set (comps ns) = set [1 ..< Suc k]"
    using comps_sorted_distinct[of ns] by auto
  moreover have "sorted (comps ns)" "distinct (comps ns)"
    using comps_sorted_distinct[of ns] by simp_all
  ultimately show ?thesis
    by (intro sorted_distinct_set_unique) (simp_all del: upt_Suc)
qed

text \<open>With pairwise distinct, truthy ids the output graph is connected.\<close>

lemma output_connected:
  assumes uniq: "unique_ids p" and tr: "truthy_ids p"
  shows "\<exists>g. KnowledgeGraph p = Inr g \<and> connected_graph g"
proof -
  from labelled_graph[OF uniq] obtain g k where g: "KnowledgeGraph p = Inr g"
    and ids: "map n_id (nodes g) = map n_id (nodesIn p)"
    and ed: "edges g = edgesIn p @ connectors (nodes g)"
    and bd: "\<forall>n \<in> set (nodes g). \<exists>c. n_component n = Some c \<and> 1 \<le> c \<and> c \<le> k"
    and us: "\<forall>c. 1 \<le> c \<and> c \<le> k \<longrightarrow> (\<exists>n \<in> set (nodes g). n_component n = Some c)"
    and eq: "\<forall>n \<in> set (nodes g). \<forall>m \<in> set (nodes g).
        n_component n = n_component m \<longleftrightarrow> joined (edgesIn p) (n_id n) (n_id m)"
    by blast
  let ?ns = "nodes g"
  have truthy: "\<forall>n \<in> set ?ns. truthy (n_id n)"
  proof
    fix n assume "n \<in> set ?ns"
    then have "n_id n \<in> set (map n_id ?ns)" by simp
    then have "n_id n \<in> set (map r_id (list_or_empty (graph_nodes p)))"
      unfolding ids nodesIn_ids .
    then obtain r where "r \<in> set (list_or_empty (graph_nodes p))" "n_id n = r_id r" by auto
    with tr show "truthy (n_id n)" by (simp add: truthy_ids_def)
  qed
  note cs = comps_labelled[OF bd us]
  have sub: "set (edgesIn p) \<subseteq> set (edges g)" "set (connectors ?ns) \<subseteq> set (edges g)"
    using ed by simp_all
  have rep: "\<exists>r \<in> set ?ns. n_component r = Some c \<and> representative ?ns c = n_id r"
    if "1 \<le> c" "c \<le> k" for c
  proof -
    from that us obtain n where "n \<in> set ?ns" "n_component n = Some c" by blast
    then have "c \<in> comp_or0 ` set ?ns" by (force simp: comp_or0_def)
    from find_comp[OF this] obtain r where r: "find (\<lambda>n. comp_or0 n = c) ?ns = Some r"
      "r \<in> set ?ns" "comp_or0 r = c" by blast
    from bd r(2) obtain c' where "n_component r = Some c'" by blast
    with r(3) have "n_component r = Some c" by (simp add: comp_or0_def)
    with r(1,2) show ?thesis by (auto simp: representative_def)
  qed
  have link: "joined (edges g) (representative ?ns c) (representative ?ns (Suc c))"
    if "1 \<le> c" "Suc c \<le> k" for c
  proof -
    from that have i: "c - 1 < length (comps ?ns) - 1" by (simp add: cs)
    have "connectors ?ns ! (c - 1) =
        connector (representative ?ns (comps ?ns ! (c - 1))) (representative ?ns (comps ?ns ! (c - 1 + 1)))"
      using i by (simp add: connectors_chain[OF truthy])
    moreover from that have "comps ?ns ! (c - 1) = c" "comps ?ns ! (c - 1 + 1) = Suc c"
      unfolding cs by (simp_all add: nth_upt del: upt_Suc)
    ultimately have "connectors ?ns ! (c - 1) = connector (representative ?ns c) (representative ?ns (Suc c))"
      by simp
    moreover from i have "connectors ?ns ! (c - 1) \<in> set (connectors ?ns)"
      by (intro nth_mem) (simp add: connectors_chain[OF truthy])
    ultimately have "connector (representative ?ns c) (representative ?ns (Suc c)) \<in> set (edges g)"
      using sub(2) by auto
    from joined_edge[OF this] show ?thesis by (simp add: connector_def)
  qed
  have chain: "joined (edges g) (representative ?ns 1) (representative ?ns c)"
    if "1 \<le> c" "c \<le> k" for c
    using that
  proof (induction c)
    case 0
    then show ?case by simp
  next
    case (Suc c)
    show ?case
    proof (cases "c = 0")
      case True
      then show ?thesis by (simp add: joined_def)
    next
      case False
      with Suc.prems have c: "1 \<le> c" "c \<le> k" "Suc c \<le> k" by simp_all
      from joined_trans[OF Suc.IH[OF c(1,2)] link[OF c(1,3)]] show ?thesis .
    qed
  qed
  have root: "joined (edges g) (n_id n) (representative ?ns 1)" if n: "n \<in> set ?ns" for n
  proof -
    from bd n obtain c where c: "n_component n = Some c" "1 \<le> c" "c \<le> k" by blast
    from rep[OF c(2,3)] obtain r where r: "r \<in> set ?ns" "n_component r = Some c"
      "representative ?ns c = n_id r" by blast
    from c(1) r(2) have "n_component n = n_component r" by simp
    with eq[rule_format, OF n r(1)] have "joined (edgesIn p) (n_id n) (n_id r)" by blast
    from joined_mono[OF sub(1) this] r(3) have "joined (edges g) (n_id n) (representative ?ns c)"
      by simp
    from joined_trans[OF this joined_sym[OF chain[OF c(2,3)]]] show ?thesis .
  qed
  have "connected_graph g"
    unfolding connected_graph_def
  proof (intro ballI)
    fix u v assume "u \<in> n_id ` set ?ns" "v \<in> n_id ` set ?ns"
    then obtain n m where "n \<in> set ?ns" "u = n_id n" "m \<in> set ?ns" "v = n_id m" by blast
    with root[of n] root[of m] show "joined (edges g) u v"
      by (auto intro: joined_trans joined_sym)
  qed
  with g show ?thesis by blast
qed

section \<open>A worked example\<close>

text \<open>The definitions unfolded to run the callback on a concrete payload.\<close>

lemmas eval_defs = KnowledgeGraph_def label_components_def nodesIn_def edgesIn_def retained_def nodeIdSet_def
      normalize_node_def nullish_def num_or_def list_or_empty_def adj_init_def adj_push_def adj_get_def
      connectors_def comps_def comp_or0_def representativeByComp_def syntheticEdges_def rep_get_def
      truthy_def connector_def raw_node_def raw_edge_def labelled_node_def Let_def

lemma example_label:
  "label_components (nodesIn example_payload) (edgesIn example_payload) = Inr (nodes example_graph, 2)"
  by (simp add: example_payload_def example_graph_def eval_defs)

lemma example_run: "KnowledgeGraph example_payload = Inr example_graph"
  by (simp add: example_payload_def example_graph_def eval_defs)

lemma example_unique: "unique_ids example_payload"
  by (simp add: unique_ids_def example_payload_def list_or_empty_def raw_node_def)

lemma example_permuted_nodes: "mset (list_or_empty (graph_nodes example_permuted)) = mset (list_or_empty (graph_nodes example_payload))"
    by (simp add: example_permuted_def example_payload_def list_or_empty_def)
lemma example_permuted_edges: "mset (list_or_empty (graph_edges example_permuted)) = mset (list_or_empty (graph_edges example_payload))"
    by (simp add: example_permuted_def example_payload_def list_or_empty_def)

lemma example_permuted_run: "KnowledgeGraph example_permuted = Inr example_permuted_graph"
  by (simp add: example_permuted_def example_permuted_graph_def eval_defs)

lemma dup_run: "KnowledgeGraph dup_payload = Inr dup_graph"
  by (simp add: dup_payload_def dup_graph_def eval_defs)

lemma dup_permuted_run: "KnowledgeGraph dup_permuted = Inr dup_permuted_graph"
  by (simp add: dup_permuted_def dup_permuted_graph_def eval_defs)

lemma dup_edgesIn: "edgesIn dup_payload = [raw_edge ''A'' ''B'']"
  by (simp add: dup_payload_def eval_defs)

section \<open>Normalisation\<close>

text \<open>
  Claim C5. Normalisation maps the raw node list to the canonical node list position by
  position (the order is kept). The canonical \<open>label\<close> is the raw label when present and
  the \<open>id\<close> otherwise; \<open>importance\<close> is the raw importance when present and
  \<open>max(size, 1) / 5\<close> otherwise, an absent \<open>size\<close> counting as 1; \<open>frequency\<close> and
  \<open>degree\<close> are the raw values when present and 0 otherwise.
\<close>

theorem normalize_defaults:
  "length (nodesIn p) = length (list_or_empty (graph_nodes p)) \<and>
   (\<forall>i < length (list_or_empty (graph_nodes p)).
      let r = list_or_empty (graph_nodes p) ! i; n = nodesIn p ! i in
        n_id n = r_id r \<and>
        n_label n = (case r_label r of Some l \<Rightarrow> Some l | None \<Rightarrow> r_id r) \<and>
        n_importance n =
          (case r_importance r of
             Some v \<Rightarrow> v
           | None \<Rightarrow> max (case r_size r of Some s \<Rightarrow> s | None \<Rightarrow> 1) 1 / 5) \<and>
        n_frequency n = (case r_frequency r of Some v \<Rightarrow> v | None \<Rightarrow> 0) \<and>
        n_degree n = (case r_degree r of Some v \<Rightarrow> v | None \<Rightarrow> 0))"
  by (auto simp: nodesIn_def normalize_node_def nullish_def num_or_def Let_def
           split: option.splits)

theorem normalize_defaults_witness:
  "(0::nat) < length (list_or_empty (graph_nodes
      \<lparr> graph_nodes = Some [\<lparr> r_id = Some ''a'', r_label = None, r_size = Some 0,
                               r_importance = None, r_frequency = Some 4, r_degree = None \<rparr>],
        graph_edges = None \<rparr>)) \<and>
   n_label (nodesIn
      \<lparr> graph_nodes = Some [\<lparr> r_id = Some ''a'', r_label = None, r_size = Some 0,
                               r_importance = None, r_frequency = Some 4, r_degree = None \<rparr>],
        graph_edges = None \<rparr> ! 0) = Some ''a'' \<and>
   n_importance (nodesIn
      \<lparr> graph_nodes = Some [\<lparr> r_id = Some ''a'', r_label = None, r_size = Some 0,
                               r_importance = None, r_frequency = Some 4, r_degree = None \<rparr>],
        graph_edges = None \<rparr> ! 0) = 1 / 5 \<and>
   n_frequency (nodesIn
      \<lparr> graph_nodes = Some [\<lparr> r_id = Some ''a'', r_label = None, r_size = Some 0,
                               r_importance = None, r_frequency = Some 4, r_degree = None \<rparr>],
        graph_edges = None \<rparr> ! 0) = 4"
  using normalize_defaults
    [of "\<lparr> graph_nodes = Some [\<lparr> r_id = Some ''a'', r_label = None, r_size = Some 0,
                               r_importance = None, r_frequency = Some 4, r_degree = None \<rparr>],
           graph_edges = None \<rparr>"]
  by (simp add: list_or_empty_def Let_def)

lemma normalize_as_raw: "normalize_node (as_raw (normalize_node r)) = normalize_node r"
  by (simp add: normalize_node_def as_raw_def nullish_def split: option.splits)

text \<open>
  Claim C8. Normalisation is idempotent: canonicalising the nodes and filtering the edges
  of its own output gives that output again, for every payload.
\<close>

theorem normalization_idempotent:
  "nodesIn (normalized p) = nodesIn p \<and> edgesIn (normalized p) = edgesIn p"
proof -
  have n: "nodesIn (normalized p) = nodesIn p"
    by (simp add: normalized_def nodesIn_def list_or_empty_def normalize_as_raw)
  have "edgesIn (normalized p) = filter (retained (nodesIn p)) (edgesIn p)"
    unfolding edgesIn_def n by (simp add: normalized_def list_or_empty_def edgesIn_def)
  then show ?thesis using n by (simp add: edgesIn_def)
qed

section \<open>Component labelling\<close>

text \<open>
  The three claims of this section fail on a payload in which an id occurs twice, and hold
  when the node ids are pairwise distinct. With a repeated id only the first node that
  has it is labelled: line 65 takes the second for visited, and \<open>find\<close> at line 71
  returns the first.
\<close>

text \<open>
  Claim C9 as stated fails: for the two nodes \<open>A\<close>, \<open>A\<close> the second output node has no
  \<open>component\<close>.
\<close>

theorem duplicate_id_not_labelled:
  "KnowledgeGraph \<lparr> graph_nodes = Some [raw_node ''A'', raw_node ''A''], graph_edges = Some [] \<rparr>
     = Inr \<lparr> nodes = [labelled_node ''A'' 1, normalize_node (raw_node ''A'')],
             edges = [connector (Some ''A'') (Some ''A'')] \<rparr> \<and>
   n_component (normalize_node (raw_node ''A'')) = None"
  by (simp add: eval_defs)

text \<open>
  Claim C9, as amended. When the node ids of the payload are pairwise distinct, the output
  nodes are the canonical nodes, in their order, each with a defined \<open>component\<close>, and
  the values in use are exactly \<open>1, ..., k\<close>, where \<open>k\<close> is the final value of the counter
  \<open>comp\<close>. The values are issued in node order: a node joined to an earlier node carries
  that node's value, and a node joined to no earlier node (one found unvisited) carries
  the next value, one more than the number of values in use before it.
\<close>

theorem components_defined_consecutive:
  assumes "unique_ids p"
  shows "\<exists>g k. KnowledgeGraph p = Inr g \<and>
     label_components (nodesIn p) (edgesIn p) = Inr (nodes g, k) \<and>
     map unlabelled (nodes g) = nodesIn p \<and>
     (\<forall>n \<in> set (nodes g). n_component n \<noteq> None) \<and>
     {c. \<exists>n \<in> set (nodes g). n_component n = Some c} = {1..k} \<and>
     (\<forall>i < length (nodes g). \<forall>j < i.
        joined (edgesIn p) (n_id (nodes g ! j)) (n_id (nodes g ! i)) \<longrightarrow>
        n_component (nodes g ! i) = n_component (nodes g ! j)) \<and>
     (\<forall>i < length (nodes g).
        (\<forall>j < i. \<not> joined (edgesIn p) (n_id (nodes g ! j)) (n_id (nodes g ! i))) \<longrightarrow>
        n_component (nodes g ! i) = Some (Suc (card {c. \<exists>j < i. n_component (nodes g ! j) = Some c})))"
proof -
  from labelled_graph[OF assms] obtain g k where
    g: "KnowledgeGraph p = Inr g" "label_components (nodesIn p) (edgesIn p) = Inr (nodes g, k)"
    and bd: "\<forall>n \<in> set (nodes g). \<exists>c. n_component n = Some c \<and> 1 \<le> c \<and> c \<le> k"
    and us: "\<forall>c. 1 \<le> c \<and> c \<le> k \<longrightarrow> (\<exists>n \<in> set (nodes g). n_component n = Some c)"
    and eq: "\<forall>n \<in> set (nodes g). \<forall>m \<in> set (nodes g).
        n_component n = n_component m \<longleftrightarrow> joined (edgesIn p) (n_id n) (n_id m)"
    by blast
  from prefix_components[OF assms] obtain g' where g':
    "KnowledgeGraph p = Inr g' \<and>
     (\<forall>l \<le> length (nodes g'). \<exists>m. {c. \<exists>n \<in> set (take l (nodes g')). n_component n = Some c} = {1..m})"
    by (elim exE)
  from g'[THEN conjunct1] g(1) have "g' = g" by simp
  note pre = g'[THEN conjunct2, unfolded this]
  let ?ns = "nodes g"
  have 1: "\<forall>n \<in> set ?ns. n_component n \<noteq> None"
  proof
    fix n assume "n \<in> set ?ns"
    with bd obtain c where "n_component n = Some c" by blast
    then show "n_component n \<noteq> None" by simp
  qed
  have 2: "{c. \<exists>n \<in> set ?ns. n_component n = Some c} = {1..k}"
  proof (intro set_eqI iffI)
    fix c assume "c \<in> {c. \<exists>n \<in> set ?ns. n_component n = Some c}"
    with bd show "c \<in> {1..k}" by fastforce
  next
    fix c assume "c \<in> {1..k}"
    with us show "c \<in> {c. \<exists>n \<in> set ?ns. n_component n = Some c}" by simp
  qed
  have same: "n_component (?ns ! i) = n_component (?ns ! j) \<longleftrightarrow> joined (edgesIn p) (n_id (?ns ! j)) (n_id (?ns ! i))"
    if "i < length ?ns" "j < i" for i j
  proof -
    from that have "?ns ! i \<in> set ?ns" "?ns ! j \<in> set ?ns" by simp_all
    from eq[rule_format, OF this(2) this(1)] show ?thesis by auto
  qed
  have 3: "\<forall>i < length ?ns. \<forall>j < i.
        joined (edgesIn p) (n_id (?ns ! j)) (n_id (?ns ! i)) \<longrightarrow>
        n_component (?ns ! i) = n_component (?ns ! j)"
  proof (intro allI impI)
    fix i j assume "i < length ?ns" "j < i" "joined (edgesIn p) (n_id (?ns ! j)) (n_id (?ns ! i))"
    with same[of i j] show "n_component (?ns ! i) = n_component (?ns ! j)" by simp
  qed
  have 4: "\<forall>i < length ?ns.
        (\<forall>j < i. \<not> joined (edgesIn p) (n_id (?ns ! j)) (n_id (?ns ! i))) \<longrightarrow>
        n_component (?ns ! i) = Some (Suc (card {c. \<exists>j < i. n_component (?ns ! j) = Some c}))"
  proof (intro allI impI)
    fix i assume i: "i < length ?ns"
      and nj: "\<forall>j < i. \<not> joined (edgesIn p) (n_id (?ns ! j)) (n_id (?ns ! i))"
    from i have "?ns ! i \<in> set ?ns" by simp
    with bd obtain c where c: "n_component (?ns ! i) = Some c" by blast
    have new: "\<forall>j < i. n_component (?ns ! j) \<noteq> Some c"
    proof (intro allI impI)
      fix j assume "j < i"
      with same[OF i this] nj c show "n_component (?ns ! j) \<noteq> Some c" by auto
    qed
    from i have "i \<le> length ?ns" "Suc i \<le> length ?ns" by simp_all
    from pre[rule_format, OF this(1)] obtain m where
      m: "{c. \<exists>n \<in> set (take i ?ns). n_component n = Some c} = {1..m}" by (elim exE)
    from pre[rule_format, OF \<open>Suc i \<le> length ?ns\<close>] obtain m' where
      m': "{c. \<exists>n \<in> set (take (Suc i) ?ns). n_component n = Some c} = {1..m'}" by (elim exE)
    from next_value[OF m m' i c new] c
    show "n_component (?ns ! i) = Some (Suc (card {c. \<exists>j < i. n_component (?ns ! j) = Some c}))"
      by simp
  qed
  note fr = KnowledgeGraph_frame[OF g(1)]
  show ?thesis
    by (rule exI[of _ g], rule exI[of _ k]) (intro conjI g fr 1 2 3 4)
qed

theorem components_defined_consecutive_witness:
  "unique_ids example_payload \<and> KnowledgeGraph example_payload = Inr example_graph \<and>
   label_components (nodesIn example_payload) (edgesIn example_payload) = Inr (nodes example_graph, 2) \<and>
   {c. \<exists>n \<in> set (nodes example_graph). n_component n = Some c} = {1..2} \<and>
   n_component (nodes example_graph ! 2)
     = Some (Suc (card {c. \<exists>j < 2. n_component (nodes example_graph ! j) = Some c}))"
proof -
  from components_defined_consecutive[OF example_unique] obtain g k where all:
    "KnowledgeGraph example_payload = Inr g \<and>
     label_components (nodesIn example_payload) (edgesIn example_payload) = Inr (nodes g, k) \<and>
     map unlabelled (nodes g) = nodesIn example_payload \<and>
     (\<forall>n \<in> set (nodes g). n_component n \<noteq> None) \<and>
     {c. \<exists>n \<in> set (nodes g). n_component n = Some c} = {1..k} \<and>
     (\<forall>i < length (nodes g). \<forall>j < i.
        joined (edgesIn example_payload) (n_id (nodes g ! j)) (n_id (nodes g ! i)) \<longrightarrow>
        n_component (nodes g ! i) = n_component (nodes g ! j)) \<and>
     (\<forall>i < length (nodes g).
        (\<forall>j < i. \<not> joined (edgesIn example_payload) (n_id (nodes g ! j)) (n_id (nodes g ! i))) \<longrightarrow>
        n_component (nodes g ! i) = Some (Suc (card {c. \<exists>j < i. n_component (nodes g ! j) = Some c})))"
    by (elim exE)
  note g = all[THEN conjunct1] and l = all[THEN conjunct2, THEN conjunct1]
    and s = all[THEN conjunct2, THEN conjunct2, THEN conjunct2, THEN conjunct2, THEN conjunct1]
    and t = all[THEN conjunct2, THEN conjunct2, THEN conjunct2, THEN conjunct2, THEN conjunct2, THEN conjunct1]
    and o = all[THEN conjunct2, THEN conjunct2, THEN conjunct2, THEN conjunct2, THEN conjunct2, THEN conjunct2]
  from g example_run have gg: "g = example_graph" by simp
  from l example_label have k: "k = 2" unfolding gg by simp
  from s have s': "{c. \<exists>n \<in> set (nodes example_graph). n_component n = Some c} = {1..2}"
    unfolding gg k .
  have len: "(2::nat) < length (nodes example_graph)" by (simp add: example_graph_def)
  have apart: "\<forall>j < 2. \<not> joined (edgesIn example_payload)
      (n_id (nodes example_graph ! j)) (n_id (nodes example_graph ! 2))"
  proof (intro allI impI)
    fix j :: nat assume j: "j < 2"
    then have "n_component (nodes example_graph ! 2) \<noteq> n_component (nodes example_graph ! j)"
      by (auto simp: example_graph_def labelled_node_def less_2_cases_iff)
    with t[unfolded gg, rule_format, OF len j]
    show "\<not> joined (edgesIn example_payload) (n_id (nodes example_graph ! j)) (n_id (nodes example_graph ! 2))"
      by blast
  qed
  from o[unfolded gg, rule_format, OF len apart[rule_format]]
  have "n_component (nodes example_graph ! 2)
      = Some (Suc (card {c. \<exists>j < 2. n_component (nodes example_graph ! j) = Some c}))" .
  with example_unique example_run example_label s' show ?thesis by blast
qed

text \<open>
  Claim C2 as stated fails: in the payload with the repeated id \<open>A\<close> the second node
  \<open>A\<close> and the node \<open>B\<close> are joined by the retained edge between \<open>A\<close> and \<open>B\<close>, yet
  the one has no component and the other has component 1.
\<close>

theorem duplicate_id_breaks_partition:
  "KnowledgeGraph dup_payload = Inr dup_graph \<and>
   n_id (nodes dup_graph ! 1) = Some ''A'' \<and> n_id (nodes dup_graph ! 2) = Some ''B'' \<and>
   joined (edgesIn dup_payload) (n_id (nodes dup_graph ! 1)) (n_id (nodes dup_graph ! 2)) \<and>
   n_component (nodes dup_graph ! 1) = None \<and> n_component (nodes dup_graph ! 2) = Some 1"
proof -
  have "(Some ''A'', Some ''B'') \<in> edge_rel [raw_edge ''A'' ''B'']"
    by (simp add: edge_rel_def raw_edge_def)
  then have "joined (edgesIn dup_payload) (Some ''A'') (Some ''B'')"
    unfolding joined_def dup_edgesIn by (rule r_into_rtrancl)
  then show ?thesis
    using dup_run by (simp add: dup_graph_def labelled_node_def)
qed

text \<open>
  Claim C2, as amended. When the node ids of the payload are pairwise distinct, the output
  nodes are the canonical nodes of the payload, and two of them carry the same
  \<open>component\<close> exactly when an undirected path of retained edges joins them (the synthetic
  edges play no part); a node that no retained edge touches shares its component with no
  other node.
\<close>

theorem partition_correct:
  assumes "unique_ids p"
  shows "\<exists>g. KnowledgeGraph p = Inr g \<and>
     map unlabelled (nodes g) = nodesIn p \<and>
     (\<forall>n \<in> set (nodes g). \<forall>m \<in> set (nodes g).
        n_component n = n_component m \<longleftrightarrow> joined (edgesIn p) (n_id n) (n_id m)) \<and>
     (\<forall>n \<in> set (nodes g).
        (\<forall>e \<in> set (edgesIn p). source e \<noteq> n_id n \<and> target e \<noteq> n_id n) \<longrightarrow>
        (\<forall>m \<in> set (nodes g). n_component m = n_component n \<longrightarrow> m = n))"
proof -
  from labelled_graph[OF assms] obtain g where g: "KnowledgeGraph p = Inr g"
    and ids: "map n_id (nodes g) = map n_id (nodesIn p)"
    and eq: "\<forall>n \<in> set (nodes g). \<forall>m \<in> set (nodes g).
        n_component n = n_component m \<longleftrightarrow> joined (edgesIn p) (n_id n) (n_id m)"
    by blast
  from assms ids have dist: "distinct (map n_id (nodes g))"
    by (simp add: unique_ids_def nodesIn_ids)
  have iso: "\<forall>n \<in> set (nodes g).
        (\<forall>e \<in> set (edgesIn p). source e \<noteq> n_id n \<and> target e \<noteq> n_id n) \<longrightarrow>
        (\<forall>m \<in> set (nodes g). n_component m = n_component n \<longrightarrow> m = n)"
  proof (intro ballI impI)
    fix n m
    assume n: "n \<in> set (nodes g)" and m: "m \<in> set (nodes g)"
      and iso: "\<forall>e \<in> set (edgesIn p). source e \<noteq> n_id n \<and> target e \<noteq> n_id n"
      and same: "n_component m = n_component n"
    from eq n m same[symmetric] have "(n_id n, n_id m) \<in> (edge_rel (edgesIn p))\<^sup>*"
      unfolding joined_def by blast
    moreover from iso have "\<And>j. (n_id n, j) \<notin> edge_rel (edgesIn p)"
      by (auto simp: edge_rel_def)
    ultimately have "n_id m = n_id n"
      by (metis converse_rtranclE)
    with dist n m show "m = n"
      by (simp add: distinct_map inj_on_def)
  qed
  note fr = KnowledgeGraph_frame[OF g]
  show ?thesis
    by (rule exI[of _ g]) (intro conjI g fr eq iso)
qed

theorem partition_correct_witness:
  "unique_ids example_payload \<and>
   KnowledgeGraph example_payload = Inr example_graph \<and>
   map unlabelled (nodes example_graph) = nodesIn example_payload \<and>
   n_component (nodes example_graph ! 0) = n_component (nodes example_graph ! 1) \<and>
   joined (edgesIn example_payload) (Some ''A'') (Some ''B'') \<and>
   n_component (nodes example_graph ! 0) \<noteq> n_component (nodes example_graph ! 2) \<and>
   \<not> joined (edgesIn example_payload) (Some ''A'') (Some ''C'')"
proof -
  from partition_correct[OF example_unique] obtain g where all:
    "KnowledgeGraph example_payload = Inr g \<and>
     map unlabelled (nodes g) = nodesIn example_payload \<and>
     (\<forall>n \<in> set (nodes g). \<forall>m \<in> set (nodes g).
        n_component n = n_component m \<longleftrightarrow> joined (edgesIn example_payload) (n_id n) (n_id m)) \<and>
     (\<forall>n \<in> set (nodes g).
        (\<forall>e \<in> set (edgesIn example_payload). source e \<noteq> n_id n \<and> target e \<noteq> n_id n) \<longrightarrow>
        (\<forall>m \<in> set (nodes g). n_component m = n_component n \<longrightarrow> m = n))"
    by (elim exE)
  note g = all[THEN conjunct1] and fr = all[THEN conjunct2, THEN conjunct1]
    and eq = all[THEN conjunct2, THEN conjunct2, THEN conjunct1]
  from g example_run have gg: "g = example_graph" by simp
  have mem: "labelled_node ''A'' 1 \<in> set (nodes example_graph)"
    "labelled_node ''B'' 1 \<in> set (nodes example_graph)"
    "labelled_node ''C'' 2 \<in> set (nodes example_graph)"
    by (simp_all add: example_graph_def)
  from eq[unfolded gg, rule_format, OF mem(1) mem(2)]
  have ab: "joined (edgesIn example_payload) (Some ''A'') (Some ''B'')"
    by (simp add: labelled_node_def)
  from eq[unfolded gg, rule_format, OF mem(1) mem(3)]
  have ac: "\<not> joined (edgesIn example_payload) (Some ''A'') (Some ''C'')"
    by (simp add: labelled_node_def)
  have c1: "n_component (nodes example_graph ! 0) = n_component (nodes example_graph ! 1)"
    and c2: "n_component (nodes example_graph ! 0) \<noteq> n_component (nodes example_graph ! 2)"
    by (simp_all add: example_graph_def labelled_node_def)
  from example_unique example_run fr[unfolded gg] c1 ab c2 ac show ?thesis by blast
qed

text \<open>
  Claim C7 as stated fails: in the payload with the repeated id \<open>A\<close> the node labelled
  \<open>x\<close> shares its component with \<open>B\<close>; after the two nodes with id \<open>A\<close> are
  exchanged it has no component, and \<open>B\<close> still has component 1.
\<close>

theorem duplicate_id_order_dependent:
  "mset (list_or_empty (graph_nodes dup_permuted)) = mset (list_or_empty (graph_nodes dup_payload)) \<and>
   mset (list_or_empty (graph_edges dup_permuted)) = mset (list_or_empty (graph_edges dup_payload)) \<and>
   KnowledgeGraph dup_payload = Inr dup_graph \<and>
   KnowledgeGraph dup_permuted = Inr dup_permuted_graph \<and>
   unlabelled (nodes dup_graph ! 0) = unlabelled (nodes dup_permuted_graph ! 1) \<and>
   unlabelled (nodes dup_graph ! 2) = unlabelled (nodes dup_permuted_graph ! 2) \<and>
   n_component (nodes dup_graph ! 0) = n_component (nodes dup_graph ! 2) \<and>
   n_component (nodes dup_permuted_graph ! 1) \<noteq> n_component (nodes dup_permuted_graph ! 2)"
  using dup_run dup_permuted_run
  by (simp add: dup_payload_def dup_permuted_def dup_graph_def dup_permuted_graph_def
      list_or_empty_def labelled_node_def unlabelled_def)

text \<open>
  Claim C7, as amended. When the node ids of a payload are pairwise distinct, permuting
  its node list and its edge list leaves the partition unchanged: two nodes carry the same
  component after the run on the permuted payload exactly when they do after the run on
  the original one.
\<close>

theorem partition_order_independent:
  assumes uniq: "unique_ids p"
    and pn: "mset (list_or_empty (graph_nodes p')) = mset (list_or_empty (graph_nodes p))"
    and pe: "mset (list_or_empty (graph_edges p')) = mset (list_or_empty (graph_edges p))"
  shows "\<exists>g g'. KnowledgeGraph p = Inr g \<and> KnowledgeGraph p' = Inr g' \<and>
     map unlabelled (nodes g) = nodesIn p \<and> map unlabelled (nodes g') = nodesIn p' \<and>
     n_id ` set (nodes g') = n_id ` set (nodes g) \<and>
     (\<forall>n \<in> set (nodes g). \<forall>m \<in> set (nodes g). \<forall>n' \<in> set (nodes g'). \<forall>m' \<in> set (nodes g').
        n_id n' = n_id n \<and> n_id m' = n_id m \<longrightarrow>
        (n_component n' = n_component m' \<longleftrightarrow> n_component n = n_component m))"
proof -
  from pn have "mset (map r_id (list_or_empty (graph_nodes p'))) = mset (map r_id (list_or_empty (graph_nodes p)))"
    by simp
  from mset_eq_imp_distinct_iff[OF this] uniq have uniq': "unique_ids p'"
    by (simp add: unique_ids_def)
  from mset_eq_setD[OF pn] have sn: "set (nodesIn p') = set (nodesIn p)"
    by (simp add: nodesIn_def)
  then have "retained (nodesIn p') = retained (nodesIn p)"
    by (simp add: retained_def nodeIdSet_def fun_eq_iff)
  with mset_eq_setD[OF pe] have "set (edgesIn p') = set (edgesIn p)"
    by (simp add: edgesIn_def)
  from edge_rel_set[OF this] have j: "joined (edgesIn p') = joined (edgesIn p)"
    by (simp add: joined_def fun_eq_iff)
  from labelled_graph[OF uniq] obtain g where g: "KnowledgeGraph p = Inr g"
    and ids: "map n_id (nodes g) = map n_id (nodesIn p)"
    and eq: "\<forall>n \<in> set (nodes g). \<forall>m \<in> set (nodes g).
        n_component n = n_component m \<longleftrightarrow> joined (edgesIn p) (n_id n) (n_id m)"
    by blast
  from labelled_graph[OF uniq'] obtain g' where g': "KnowledgeGraph p' = Inr g'"
    and ids': "map n_id (nodes g') = map n_id (nodesIn p')"
    and eq': "\<forall>n \<in> set (nodes g'). \<forall>m \<in> set (nodes g').
        n_component n = n_component m \<longleftrightarrow> joined (edgesIn p') (n_id n) (n_id m)"
    by blast
  have "set (map n_id (nodes g')) = set (map n_id (nodes g))"
    unfolding ids ids' using sn by simp
  then have same_ids: "n_id ` set (nodes g') = n_id ` set (nodes g)" by simp
  have inv: "\<forall>n \<in> set (nodes g). \<forall>m \<in> set (nodes g). \<forall>n' \<in> set (nodes g'). \<forall>m' \<in> set (nodes g').
        n_id n' = n_id n \<and> n_id m' = n_id m \<longrightarrow>
        (n_component n' = n_component m' \<longleftrightarrow> n_component n = n_component m)"
  proof (intro ballI impI)
    fix n m n' m'
    assume n: "n \<in> set (nodes g)" "m \<in> set (nodes g)"
      and n': "n' \<in> set (nodes g')" "m' \<in> set (nodes g')"
      and same: "n_id n' = n_id n \<and> n_id m' = n_id m"
    from eq n have "n_component n = n_component m \<longleftrightarrow> joined (edgesIn p) (n_id n) (n_id m)"
      by blast
    moreover from eq' n' have "n_component n' = n_component m' \<longleftrightarrow> joined (edgesIn p') (n_id n') (n_id m')"
      by blast
    ultimately show "n_component n' = n_component m' \<longleftrightarrow> n_component n = n_component m"
      using same j by simp
  qed
  note fr = KnowledgeGraph_frame[OF g] and fr' = KnowledgeGraph_frame[OF g']
  show ?thesis
    by (rule exI[of _ g], rule exI[of _ g']) (intro conjI g g' fr fr' same_ids inv)
qed

theorem partition_order_independent_witness:
  "unique_ids example_payload \<and>
   mset (list_or_empty (graph_nodes example_permuted)) = mset (list_or_empty (graph_nodes example_payload)) \<and>
   mset (list_or_empty (graph_edges example_permuted)) = mset (list_or_empty (graph_edges example_payload)) \<and>
   KnowledgeGraph example_payload = Inr example_graph \<and>
   KnowledgeGraph example_permuted = Inr example_permuted_graph \<and>
   n_id ` set (nodes example_permuted_graph) = n_id ` set (nodes example_graph) \<and>
   (n_component (labelled_node ''A'' 2) = n_component (labelled_node ''C'' 1))
     = (n_component (labelled_node ''A'' 1) = n_component (labelled_node ''C'' 2))"
proof -
  from partition_order_independent[OF example_unique example_permuted_nodes example_permuted_edges]
  obtain g g' where
    all: "KnowledgeGraph example_payload = Inr g \<and> KnowledgeGraph example_permuted = Inr g' \<and>
     map unlabelled (nodes g) = nodesIn example_payload \<and>
     map unlabelled (nodes g') = nodesIn example_permuted \<and>
     n_id ` set (nodes g') = n_id ` set (nodes g) \<and>
     (\<forall>n \<in> set (nodes g). \<forall>m \<in> set (nodes g). \<forall>n' \<in> set (nodes g'). \<forall>m' \<in> set (nodes g').
        n_id n' = n_id n \<and> n_id m' = n_id m \<longrightarrow>
        (n_component n' = n_component m' \<longleftrightarrow> n_component n = n_component m))"
    by (elim exE)
  note g = all[THEN conjunct1] and g' = all[THEN conjunct2, THEN conjunct1]
    and ids = all[THEN conjunct2, THEN conjunct2, THEN conjunct2, THEN conjunct2, THEN conjunct1]
    and inv = all[THEN conjunct2, THEN conjunct2, THEN conjunct2, THEN conjunct2, THEN conjunct2]
  from g example_run have gg: "g = example_graph" by simp
  from g' example_permuted_run have gg': "g' = example_permuted_graph" by simp
  have mem: "labelled_node ''A'' 1 \<in> set (nodes example_graph)"
    "labelled_node ''C'' 2 \<in> set (nodes example_graph)"
    "labelled_node ''A'' 2 \<in> set (nodes example_permuted_graph)"
    "labelled_node ''C'' 1 \<in> set (nodes example_permuted_graph)"
    by (simp_all add: example_graph_def example_permuted_graph_def)
  have same: "n_id (labelled_node ''A'' 2) = n_id (labelled_node ''A'' 1) \<and>
      n_id (labelled_node ''C'' 1) = n_id (labelled_node ''C'' 2)"
    by (simp add: labelled_node_def)
  from inv[unfolded gg gg', rule_format, OF mem(1) mem(2) mem(3) mem(4) same]
  have "(n_component (labelled_node ''A'' 2) = n_component (labelled_node ''C'' 1))
     = (n_component (labelled_node ''A'' 1) = n_component (labelled_node ''C'' 2))" .
  with example_unique example_permuted_nodes example_permuted_edges example_run example_permuted_run
    ids[unfolded gg gg']
  show ?thesis by blast
qed

section \<open>The output graph\<close>

text \<open>
  Claim C6 as stated fails: a node without \<open>id\<close> does not stop the computation. For
  the payload with that one node and no label, the node is kept, with \<open>undefined\<close> as its
  id and its label, and is given component 1.
\<close>

theorem missing_id_returns:
  "KnowledgeGraph
     \<lparr> graph_nodes = Some [\<lparr> r_id = None, r_label = None, r_size = None, r_importance = None,
                              r_frequency = None, r_degree = None \<rparr>],
       graph_edges = None \<rparr>
   = Inr \<lparr> nodes = [\<lparr> n_id = None, n_label = None, n_importance = 1 / 5, n_frequency = 0,
                       n_degree = 0, n_component = Some 1 \<rparr>],
           edges = [] \<rparr>"
  by (simp add: eval_defs)

text \<open>
  Claim C6, as amended. When a node of the payload lacks its \<open>id\<close>, the computation does
  not fail: it returns a graph whose nodes are the canonical nodes of the payload with
  \<open>component\<close> filled in, so that the node keeps its position, with \<open>undefined\<close> as its
  id and its raw label (\<open>undefined\<close> when absent) as its label. It is given a component
  exactly when no earlier node lacks the id as well.
\<close>

theorem missing_id_kept:
  assumes i: "i < length (list_or_empty (graph_nodes p))"
    and noid: "r_id (list_or_empty (graph_nodes p) ! i) = None"
  shows "\<exists>g. KnowledgeGraph p = Inr g \<and>
     map unlabelled (nodes g) = nodesIn p \<and>
     n_id (nodes g ! i) = None \<and>
     n_label (nodes g ! i) = r_label (list_or_empty (graph_nodes p) ! i) \<and>
     (n_component (nodes g ! i) \<noteq> None) = (\<forall>j < i. r_id (list_or_empty (graph_nodes p) ! j) \<noteq> None)"
proof -
  let ?raw = "list_or_empty (graph_nodes p)"
  from KnowledgeGraph_spec[of p] obtain g where g: "KnowledgeGraph p = Inr g" by blast
  note fr = KnowledgeGraph_frame[OF g]
  from i have lt: "i < length (nodesIn p)" by (simp add: nodesIn_def)
  from fr have "length (nodes g) = length (nodesIn p)" by (metis length_map)
  with lt have ltg: "i < length (nodes g)" by simp
  from fr ltg have "unlabelled (nodes g ! i) = nodesIn p ! i" by (metis nth_map)
  also from i have "\<dots> = normalize_node (?raw ! i)" by (simp add: nodesIn_def)
  finally have u: "unlabelled (nodes g ! i) = normalize_node (?raw ! i)" .
  have "n_id (unlabelled (nodes g ! i)) = n_id (nodes g ! i)"
    "n_label (unlabelled (nodes g ! i)) = n_label (nodes g ! i)"
    by (simp_all add: unlabelled_def)
  with u noid have id: "n_id (nodes g ! i) = None"
    and lb: "n_label (nodes g ! i) = r_label (?raw ! i)"
    by (simp_all add: normalize_node_def split: option.splits)
  have cp: "(n_component (nodes g ! i) \<noteq> None) = (\<forall>j < i. r_id (?raw ! j) \<noteq> None)"
  proof (cases "\<forall>j < i. r_id (?raw ! j) \<noteq> None")
    case True
    with noid have "\<forall>j < i. r_id (?raw ! j) \<noteq> r_id (?raw ! i)" by simp
    from KnowledgeGraph_first[OF i this] g True show ?thesis by auto
  next
    case False
    then obtain j where j: "j < i" "r_id (?raw ! j) = None" by blast
    with noid have "r_id (?raw ! j) = r_id (?raw ! i)" by simp
    from KnowledgeGraph_later[OF g i j(1) this] False show ?thesis by simp
  qed
  from g fr id lb cp show ?thesis by blast
qed

theorem missing_id_kept_witness:
  "(1::nat) < length (list_or_empty (graph_nodes
      \<lparr> graph_nodes = Some [raw_node ''B'', (raw_node ''B'')\<lparr>r_id := None\<rparr>], graph_edges = Some [] \<rparr>)) \<and>
   r_id (list_or_empty (graph_nodes
      \<lparr> graph_nodes = Some [raw_node ''B'', (raw_node ''B'')\<lparr>r_id := None\<rparr>], graph_edges = Some [] \<rparr>) ! 1) = None \<and>
   KnowledgeGraph
      \<lparr> graph_nodes = Some [raw_node ''B'', (raw_node ''B'')\<lparr>r_id := None\<rparr>], graph_edges = Some [] \<rparr>
     = Inr \<lparr> nodes = [labelled_node ''B'' 1,
                      (labelled_node ''B'' 2)\<lparr>n_id := None, n_label := None\<rparr>], edges = [] \<rparr> \<and>
   n_id ((labelled_node ''B'' 2)\<lparr>n_id := None, n_label := None\<rparr>) = None \<and>
   n_component ((labelled_node ''B'' 2)\<lparr>n_id := None, n_label := None\<rparr>) \<noteq> None"
proof -
  let ?p = "\<lparr> graph_nodes = Some [raw_node ''B'', (raw_node ''B'')\<lparr>r_id := None\<rparr>], graph_edges = Some [] \<rparr>"
  let ?g = "\<lparr> nodes = [labelled_node ''B'' 1, (labelled_node ''B'' 2)\<lparr>n_id := None, n_label := None\<rparr>],
             edges = [] \<rparr>"
  have h1: "(1::nat) < length (list_or_empty (graph_nodes ?p))"
    by (simp add: list_or_empty_def)
  have h2: "r_id (list_or_empty (graph_nodes ?p) ! 1) = None"
    by (simp add: list_or_empty_def raw_node_def)
  have run: "KnowledgeGraph ?p = Inr ?g"
    by (simp add: eval_defs)
  from missing_id_kept[OF h1 h2] obtain g where all:
    "KnowledgeGraph ?p = Inr g \<and> map unlabelled (nodes g) = nodesIn ?p \<and>
     n_id (nodes g ! 1) = None \<and>
     n_label (nodes g ! 1) = r_label (list_or_empty (graph_nodes ?p) ! 1) \<and>
     (n_component (nodes g ! 1) \<noteq> None) = (\<forall>j < 1. r_id (list_or_empty (graph_nodes ?p) ! j) \<noteq> None)"
    by (elim exE)
  from all[THEN conjunct1] run have gg: "g = ?g" by simp
  from all[THEN conjunct2, THEN conjunct2, THEN conjunct1]
  have a: "n_id ((labelled_node ''B'' 2)\<lparr>n_id := None, n_label := None\<rparr>) = None"
    unfolding gg by simp
  have "\<forall>j < (1::nat). r_id (list_or_empty (graph_nodes ?p) ! j) \<noteq> None"
    by (simp add: list_or_empty_def raw_node_def)
  with all[THEN conjunct2, THEN conjunct2, THEN conjunct2, THEN conjunct2]
  have b: "n_component ((labelled_node ''B'' 2)\<lparr>n_id := None, n_label := None\<rparr>) \<noteq> None"
    unfolding gg by simp
  from h1 h2 run a b show ?thesis by blast
qed

text \<open>
  Claim C4. The callback returns a graph in which every edge, retained or synthetic, has
  its \<open>source\<close> and its \<open>target\<close> among the ids of the output nodes; an edge of the
  payload with an endpoint that is no node id is not in the output, and nothing is raised.
\<close>

theorem referential_integrity:
  "\<exists>g. KnowledgeGraph p = Inr g \<and>
     (\<forall>e \<in> set (edges g). source e \<in> n_id ` set (nodes g) \<and> target e \<in> n_id ` set (nodes g)) \<and>
     (\<forall>e \<in> set (list_or_empty (graph_edges p)).
        \<not> (source e \<in> n_id ` set (nodes g) \<and> target e \<in> n_id ` set (nodes g)) \<longrightarrow> e \<notin> set (edges g))"
proof -
  from KnowledgeGraph_spec[of p] obtain ns c where
    g: "KnowledgeGraph p = Inr \<lparr> nodes = ns, edges = edgesIn p @ connectors ns \<rparr>" and
    inv: "lab_inv (edge_rel (edgesIn p)) (nodesIn p) (ns, nodeIdSet (nodesIn p), c)" by blast
  note ids = output_ids[OF inv]
  have 1: "source e \<in> n_id ` set ns \<and> target e \<in> n_id ` set ns"
    if "e \<in> set (edgesIn p @ connectors ns)" for e
  proof -
    from that consider "e \<in> set (edgesIn p)" | "e \<in> set (connectors ns)" by auto
    then show ?thesis
    proof cases
      case 1
      with edgesIn_retained have "retained (nodesIn p) e" by blast
      then show ?thesis unfolding retained_def ids(1) .
    next
      case 2
      from connectors_endpoints[OF this] show ?thesis unfolding ids(2) by blast
    qed
  qed
  let ?g = "\<lparr> nodes = ns, edges = edgesIn p @ connectors ns \<rparr>"
  have sel: "nodes ?g = ns" "edges ?g = edgesIn p @ connectors ns" by simp_all
  have a: "\<forall>e \<in> set (edges ?g). source e \<in> n_id ` set (nodes ?g) \<and> target e \<in> n_id ` set (nodes ?g)"
    unfolding sel using 1 by blast
  have b: "\<forall>e \<in> set (list_or_empty (graph_edges p)).
        \<not> (source e \<in> n_id ` set (nodes ?g) \<and> target e \<in> n_id ` set (nodes ?g)) \<longrightarrow> e \<notin> set (edges ?g)"
    unfolding sel using 1 by blast
  from g a b show ?thesis by blast
qed

theorem referential_integrity_witness:
  "KnowledgeGraph example_payload = Inr example_graph \<and>
   raw_edge ''C'' ''Z'' \<in> set (list_or_empty (graph_edges example_payload)) \<and>
   raw_edge ''C'' ''Z'' \<notin> set (edges example_graph)"
proof -
  from referential_integrity[of example_payload] obtain g where
    g: "KnowledgeGraph example_payload = Inr g" and
    drop: "\<forall>e \<in> set (list_or_empty (graph_edges example_payload)).
        \<not> (source e \<in> n_id ` set (nodes g) \<and> target e \<in> n_id ` set (nodes g))
          \<longrightarrow> e \<notin> set (edges g)"
    by blast
  from g example_run have gg: "g = example_graph" by simp
  have mem: "raw_edge ''C'' ''Z'' \<in> set (list_or_empty (graph_edges example_payload))"
    by (simp add: example_payload_def list_or_empty_def)
  have "target (raw_edge ''C'' ''Z'') \<notin> n_id ` set (nodes example_graph)"
    by (simp add: example_graph_def raw_edge_def labelled_node_def)
  with drop[unfolded gg, rule_format, OF mem] have "raw_edge ''C'' ''Z'' \<notin> set (edges example_graph)"
    by blast
  with example_run mem show ?thesis by blast
qed

text \<open>
  Claim C10. The output edge list is the list of the payload's edges whose two endpoints
  are node ids, the records unchanged and in their order, followed by the synthetic edges.
\<close>

theorem original_edges_pass_through:
  "\<exists>g. KnowledgeGraph p = Inr g \<and>
     edges g = filter (\<lambda>e. source e \<in> n_id ` set (nodes g) \<and> target e \<in> n_id ` set (nodes g))
                 (list_or_empty (graph_edges p)) @ connectors (nodes g)"
proof -
  from KnowledgeGraph_spec[of p] obtain ns c where
    g: "KnowledgeGraph p = Inr \<lparr> nodes = ns, edges = edgesIn p @ connectors ns \<rparr>" and
    inv: "lab_inv (edge_rel (edgesIn p)) (nodesIn p) (ns, nodeIdSet (nodesIn p), c)" by blast
  from inv have "map n_id ns = map n_id (nodesIn p)" by (simp add: lab_inv_def)
  then have "set (map n_id ns) = set (map n_id (nodesIn p))" by simp
  then have "nodeIdSet (nodesIn p) = n_id ` set ns"
    by (simp add: nodeIdSet_def)
  then have "retained (nodesIn p) = (\<lambda>e. source e \<in> n_id ` set ns \<and> target e \<in> n_id ` set ns)"
    by (simp add: retained_def fun_eq_iff)
  then have "edgesIn p = filter (\<lambda>e. source e \<in> n_id ` set ns \<and> target e \<in> n_id ` set ns)
                 (list_or_empty (graph_edges p))"
    by (simp add: edgesIn_def)
  with g show ?thesis by simp
qed

theorem original_edges_pass_through_witness:
  "KnowledgeGraph example_payload = Inr example_graph \<and>
   edges example_graph = [raw_edge ''A'' ''B''] @ connectors (nodes example_graph) \<and>
   weight (edges example_graph ! 0) = None"
proof -
  from original_edges_pass_through[of example_payload] obtain g where
    g: "KnowledgeGraph example_payload = Inr g" and
    e: "edges g = filter (\<lambda>e. source e \<in> n_id ` set (nodes g) \<and> target e \<in> n_id ` set (nodes g))
                 (list_or_empty (graph_edges example_payload)) @ connectors (nodes g)"
    by blast
  from g example_run have gg: "g = example_graph" by simp
  have "filter (\<lambda>e. source e \<in> n_id ` set (nodes example_graph) \<and> target e \<in> n_id ` set (nodes example_graph))
          (list_or_empty (graph_edges example_payload)) = [raw_edge ''A'' ''B'']"
    by (simp add: example_graph_def example_payload_def list_or_empty_def raw_edge_def labelled_node_def)
  with e[unfolded gg] have 1: "edges example_graph = [raw_edge ''A'' ''B''] @ connectors (nodes example_graph)"
    by simp
  then have "weight (edges example_graph ! 0) = None"
    by (simp add: raw_edge_def)
  with example_run 1 show ?thesis by blast
qed

section \<open>Connectivity and the connectors\<close>

text \<open>
  Claim C1 fails on the code. For the payload with the two nodes \<open>""\<close> and \<open>"B"\<close> and no
  edge, the nodes are labelled 1 and 2, the test \<open>if (a && b)\<close> of line 93 finds the empty
  id falsy, no connector is pushed, and the two output nodes are not joined by any path of
  output edges. (Lemma \<open>output_connected\<close> has the connectivity for truthy ids.)
\<close>

theorem empty_id_not_connected:
  "KnowledgeGraph \<lparr> graph_nodes = Some [raw_node '''', raw_node ''B''], graph_edges = Some [] \<rparr>
     = Inr \<lparr> nodes = [labelled_node '''' 1, labelled_node ''B'' 2], edges = [] \<rparr> \<and>
   \<not> joined (edges \<lparr> nodes = [labelled_node '''' 1, labelled_node ''B'' 2], edges = [] \<rparr>)
        (n_id (labelled_node '''' 1)) (n_id (labelled_node ''B'' 2))"
  by (simp add: eval_defs joined_def edge_rel_def)


text \<open>
  Claim C3 fails on the code for the same reason. For the three nodes \<open>"A"\<close>, \<open>""\<close>,
  \<open>"B"\<close> and no edge there are three component values, 1, 2 and 3, and not two
  connectors but none: both pairs of consecutive representatives contain the empty id.
  (Lemma \<open>synthetic_edges_chain\<close> has the count and the endpoints for truthy ids.)
\<close>

theorem empty_id_no_connector:
  "KnowledgeGraph
     \<lparr> graph_nodes = Some [raw_node ''A'', raw_node '''', raw_node ''B''], graph_edges = Some [] \<rparr>
     = Inr \<lparr> nodes = [labelled_node ''A'' 1, labelled_node '''' 2, labelled_node ''B'' 3],
             edges = [] \<rparr> \<and>
   comps [labelled_node ''A'' 1, labelled_node '''' 2, labelled_node ''B'' 3] = [1, 2, 3] \<and>
   connectors [labelled_node ''A'' 1, labelled_node '''' 2, labelled_node ''B'' 3] = []"
  by (simp add: eval_defs)

end
